theory Spec2Isabelle
  imports Complex_Main
begin

section \<open>Calendar arithmetic of the JavaScript \<open>Date\<close> object\<close>

text \<open>
  The payment tracker leans on \<open>Date\<close> for every date decision it takes.  A time value
  is an integer number of milliseconds since 1970-01-01T00:00:00Z.  The definitions below
  follow the day-number and time-within-day vocabulary of the ECMAScript specification
  (\<open>Day\<close>, \<open>DayFromYear\<close>, \<open>MakeDay\<close>, ...); months are
  zero-based as \<open>getMonth\<close> returns them.  The \<open>TimeClip\<close> limit of
  \<open>8.64e15\<close> ms is not modelled.
\<close>

definition msPerDay :: int where
  "msPerDay = 86400000"

definition msPerHour :: int where
  "msPerHour = 3600000"

definition msPerMinute :: int where
  "msPerMinute = 60000"

definition Day :: "int \<Rightarrow> int" where
  "Day t = t div msPerDay"

definition TimeWithinDay :: "int \<Rightarrow> int" where
  "TimeWithinDay t = t mod msPerDay"

definition InLeapYear :: "int \<Rightarrow> bool" where
  "InLeapYear y = (y mod 4 = 0 \<and> (y mod 100 \<noteq> 0 \<or> y mod 400 = 0))"

definition DaysInYear :: "int \<Rightarrow> int" where
  "DaysInYear y = (if InLeapYear y then 366 else 365)"

definition DayFromYear :: "int \<Rightarrow> int" where
  "DayFromYear y =
     365 * (y - 1970) + (y - 1969) div 4 - (y - 1901) div 100 + (y - 1601) div 400"

text \<open>
  The year of a day number, computed through the 400/100/4/1-year cycles counted from
  1601-01-01 (day \<open>-134774\<close>).
\<close>

definition YearFromDay :: "int \<Rightarrow> int" where
  "YearFromDay n =
     (let d0 = n + 134774;
          a = d0 div 146097;
          r0 = d0 mod 146097;
          c = min 3 (r0 div 36524);
          r1 = r0 - c * 36524;
          q = r1 div 1461;
          r2 = r1 mod 1461;
          r = min 3 (r2 div 365)
      in 1601 + 400 * a + 100 * c + 4 * q + r)"

definition DayWithinYear :: "int \<Rightarrow> int" where
  "DayWithinYear n = n - DayFromYear (YearFromDay n)"

text \<open>Day-in-year on which the (zero-based) month \<open>m\<close> begins.\<close>

definition MonthStart :: "bool \<Rightarrow> int \<Rightarrow> int" where
  "MonthStart lp m =
     (let L = (if lp then 1 else 0) in
      if m = 0 then 0 else if m = 1 then 31 else if m = 2 then 59 + L
      else if m = 3 then 90 + L else if m = 4 then 120 + L else if m = 5 then 151 + L
      else if m = 6 then 181 + L else if m = 7 then 212 + L else if m = 8 then 243 + L
      else if m = 9 then 273 + L else if m = 10 then 304 + L else 334 + L)"

definition MonthFromDay :: "int \<Rightarrow> int" where
  "MonthFromDay n =
     (let d = DayWithinYear n; L = (if InLeapYear (YearFromDay n) then 1 else 0) in
      if d < 31 then 0 else if d < 59 + L then 1 else if d < 90 + L then 2
      else if d < 120 + L then 3 else if d < 151 + L then 4 else if d < 181 + L then 5
      else if d < 212 + L then 6 else if d < 243 + L then 7 else if d < 273 + L then 8
      else if d < 304 + L then 9 else if d < 334 + L then 10 else 11)"

definition DateFromDay :: "int \<Rightarrow> int" where
  "DateFromDay n =
     DayWithinYear n - MonthStart (InLeapYear (YearFromDay n)) (MonthFromDay n) + 1"

definition MakeDay :: "int \<Rightarrow> int \<Rightarrow> int \<Rightarrow> int" where
  "MakeDay year month date =
     (let ym = year + month div 12; mn = month mod 12
      in DayFromYear ym + MonthStart (InLeapYear ym) mn + date - 1)"

definition MakeDate :: "int \<Rightarrow> int \<Rightarrow> int" where
  "MakeDate day time = day * msPerDay + time"

definition MakeTime :: "int \<Rightarrow> int \<Rightarrow> int \<Rightarrow> int" where
  "MakeTime h mi s = h * msPerHour + mi * msPerMinute + s * 1000"

text \<open>\<open>WeekDay\<close>: 0 is Sunday; 1970-01-01 was a Thursday.\<close>

definition WeekDay :: "int \<Rightarrow> int" where
  "WeekDay n = (n + 4) mod 7"

text \<open>The first Sunday on or after day \<open>n\<close>.\<close>

definition sundayOnOrAfter :: "int \<Rightarrow> int" where
  "sundayOnOrAfter n = n + (7 - WeekDay n) mod 7"

section \<open>Time zones\<close>

text \<open>
  Two kinds of zone are modelled: a zone with a fixed offset from UTC, given in minutes
  east of Greenwich (\<open>FixedOffset 0\<close> is UTC, \<open>FixedOffset (-420)\<close> is
  America/Phoenix, \<open>FixedOffset 780\<close> is Pacific/Tongatapu), and
  \<open>America/New_York\<close> under the rule in force since 2007: daylight time from the
  second Sunday of March, 02:00 EST (07:00 UTC), to the first Sunday of November,
  02:00 EDT (06:00 UTC).  The zone of the browser is a parameter of every client-side
  function that reads local fields of a \<open>Date\<close>.
\<close>

datatype zone = FixedOffset int | USEastern

definition dstStartUTC :: "int \<Rightarrow> int" where
  "dstStartUTC y = MakeDate (sundayOnOrAfter (MakeDay y 2 1) + 7) (7 * msPerHour)"

definition dstEndUTC :: "int \<Rightarrow> int" where
  "dstEndUTC y = MakeDate (sundayOnOrAfter (MakeDay y 10 1)) (6 * msPerHour)"

definition easternDST :: "int \<Rightarrow> bool" where
  "easternDST t = (let y = YearFromDay (Day t) in dstStartUTC y \<le> t \<and> t < dstEndUTC y)"

text \<open>Offset (local minus UTC, in ms) in force at the UTC instant \<open>t\<close>.\<close>

fun zoneOffset :: "zone \<Rightarrow> int \<Rightarrow> int" where
  "zoneOffset (FixedOffset k) t = k * msPerMinute"
| "zoneOffset USEastern t = (if easternDST t then - 4 * msPerHour else - 5 * msPerHour)"

definition LocalTime :: "zone \<Rightarrow> int \<Rightarrow> int" where
  "LocalTime z t = t + zoneOffset z t"

text \<open>
  \<open>UTC\<close> of a local wall-clock value.  For New York a wall-clock value that occurs
  twice (the repeated hour in November) denotes the earlier instant, and one that never
  occurs (the skipped hour in March) is read with the offset in force before the
  transition, as ECMAScript prescribes.
\<close>

fun UTCofLocal :: "zone \<Rightarrow> int \<Rightarrow> int" where
  "UTCofLocal (FixedOffset k) lt = lt - k * msPerMinute"
| "UTCofLocal USEastern lt =
     (if easternDST (lt + 4 * msPerHour) then lt + 4 * msPerHour else lt + 5 * msPerHour)"

section \<open>\<open>Date\<close> methods used by the application\<close>

definition getFullYear :: "zone \<Rightarrow> int \<Rightarrow> int" where
  "getFullYear z t = YearFromDay (Day (LocalTime z t))"

definition getMonth :: "zone \<Rightarrow> int \<Rightarrow> int" where
  "getMonth z t = MonthFromDay (Day (LocalTime z t))"

definition getDate :: "zone \<Rightarrow> int \<Rightarrow> int" where
  "getDate z t = DateFromDay (Day (LocalTime z t))"

text \<open>
  \<open>new Date(year, month, date)\<close>: local midnight of the given day.  A year from 0 to
  99 denotes 1900 + year.
\<close>

definition newDateYMD :: "zone \<Rightarrow> int \<Rightarrow> int \<Rightarrow> int \<Rightarrow> int" where
  "newDateYMD z y m d =
     (let yr = (if 0 \<le> y \<and> y \<le> 99 then 1900 + y else y)
      in UTCofLocal z (MakeDate (MakeDay yr m d) 0))"

text \<open>\<open>date.setDate(dt)\<close>: same local month and time of day, day of month \<open>dt\<close>.\<close>

definition setDate :: "zone \<Rightarrow> int \<Rightarrow> int \<Rightarrow> int" where
  "setDate z t dt =
     (let lt = LocalTime z t
      in UTCofLocal z
           (MakeDate (MakeDay (YearFromDay (Day lt)) (MonthFromDay (Day lt)) dt)
              (TimeWithinDay lt)))"

section \<open>Strings: date keys and their rendering\<close>

text \<open>
  A date key is the string \<open>YYYY-MM-DD\<close>, the value of an \<open>input type="date"\<close>
  element; the empty string stands for an absent bound.  Strings are compared as
  JavaScript compares them, code unit by code unit.
\<close>

definition digitChar :: "nat \<Rightarrow> char" where
  "digitChar n = char_of (48 + n)"

definition pad2 :: "nat \<Rightarrow> string" where
  "pad2 n = [digitChar (n div 10 mod 10), digitChar (n mod 10)]"

definition pad4 :: "nat \<Rightarrow> string" where
  "pad4 n = [digitChar (n div 1000 mod 10), digitChar (n div 100 mod 10),
             digitChar (n div 10 mod 10), digitChar (n mod 10)]"

definition pad6 :: "nat \<Rightarrow> string" where
  "pad6 n = [digitChar (n div 100000 mod 10), digitChar (n div 10000 mod 10)] @ pad4 n"

fun decimal :: "nat \<Rightarrow> string" where
  "decimal n = (if n < 10 then [digitChar n] else decimal (n div 10) @ [digitChar (n mod 10)])"

declare decimal.simps [simp del]

text \<open>
  \<open>year: "numeric"\<close> of \<open>toLocaleString("en-US", ...)\<close>: the year without padding;
  a year before 1 is shown by its era year, the era itself being omitted.
\<close>

definition yearNumeric :: "int \<Rightarrow> string" where
  "yearNumeric y = decimal (nat (if 1 \<le> y then y else 1 - y))"

text \<open>The year of \<open>toISOString\<close>: four digits, or a sign and six digits.\<close>

definition isoYear :: "int \<Rightarrow> string" where
  "isoYear y =
     (if 0 \<le> y \<and> y \<le> 9999 then pad4 (nat y)
      else (if y < 0 then ''-'' else ''+'') @ pad6 (nat \<bar>y\<bar>))"

text \<open>\<open>date.toISOString().split('T')[0]\<close>: the UTC calendar date of the instant.\<close>

definition isoDatePart :: "int \<Rightarrow> string" where
  "isoDatePart t =
     isoYear (YearFromDay (Day t)) @ ''-'' @ pad2 (nat (MonthFromDay (Day t) + 1)) @ ''-'' @
     pad2 (nat (DateFromDay (Day t)))"

definition digitVal :: "char \<Rightarrow> nat option" where
  "digitVal c =
     (let n = (of_char c :: nat) in if 48 \<le> n \<and> n \<le> 57 then Some (n - 48) else None)"

fun digitsVal :: "nat \<Rightarrow> string \<Rightarrow> nat option" where
  "digitsVal acc [] = Some acc"
| "digitsVal acc (c # cs) =
     (case digitVal c of None \<Rightarrow> None | Some v \<Rightarrow> digitsVal (10 * acc + v) cs)"

text \<open>
  The date part \<open>YYYY-MM-DD\<close> of the ECMAScript date-time string format, with a
  four-digit year.  A day of month up to 31 is accepted for every month and rolls over
  in \<open>MakeDay\<close>.  \<open>None\<close> is \<open>Invalid Date\<close>; a string outside the format is
  taken as invalid (what an engine's fallback parser makes of it is not modelled).
\<close>

definition parseDateKey :: "string \<Rightarrow> (int \<times> int \<times> int) option" where
  "parseDateKey s =
     (if length s = 10 \<and> s ! 4 = CHR ''-'' \<and> s ! 7 = CHR ''-'' then
        (case (digitsVal 0 (take 4 s), digitsVal 0 (take 2 (drop 5 s)),
               digitsVal 0 (drop 8 s)) of
           (Some y, Some m, Some d) \<Rightarrow>
             if 1 \<le> m \<and> m \<le> 12 \<and> 1 \<le> d \<and> d \<le> 31 then Some (int y, int m, int d)
             else None
         | _ \<Rightarrow> None)
      else None)"

text \<open>
  \<open>new Date(key + 'THH:mm:ss')\<close>: a date-time string without offset is local time.
\<close>

definition newDateLocal :: "zone \<Rightarrow> string \<Rightarrow> int \<Rightarrow> int \<Rightarrow> int \<Rightarrow> int option" where
  "newDateLocal z key h mi s =
     (case parseDateKey key of
        None \<Rightarrow> None
      | Some (y, m, d) \<Rightarrow> Some (UTCofLocal z (MakeDate (MakeDay y (m - 1) d) (MakeTime h mi s))))"

text \<open>JavaScript \<open>a <= b\<close> on strings.\<close>

fun js_str_le :: "string \<Rightarrow> string \<Rightarrow> bool" where
  "js_str_le [] ys = True"
| "js_str_le (x # xs) [] = False"
| "js_str_le (x # xs) (y # ys) =
     (if x = y then js_str_le xs ys else (of_char x :: nat) < of_char y)"

definition lowerChar :: "char \<Rightarrow> char" where
  "lowerChar c =
     (let n = (of_char c :: nat) in if 65 \<le> n \<and> n \<le> 90 then char_of (n + 32) else c)"

text \<open>\<open>toLowerCase\<close>, on the ASCII letters.\<close>

definition toLowerCase :: "string \<Rightarrow> string" where
  "toLowerCase s = map lowerChar s"

fun startsWith :: "string \<Rightarrow> string \<Rightarrow> bool" where
  "startsWith s [] = True"
| "startsWith [] (y # ys) = False"
| "startsWith (x # xs) (y # ys) = (x = y \<and> startsWith xs ys)"

text \<open>\<open>s.includes(sub)\<close>: \<open>sub\<close> occurs in \<open>s\<close> as a contiguous substring.\<close>

fun includes_js :: "string \<Rightarrow> string \<Rightarrow> bool" where
  "includes_js [] sub = (sub = [])"
| "includes_js (x # xs) sub = (startsWith (x # xs) sub \<or> includes_js xs sub)"

section \<open>Timezone utilities (\<open>utils/timezone\<close> and the report function)\<close>

text \<open>
  \<open>getETDateString\<close> of the report function: the \<open>MM/DD/YYYY\<close> rendering of the
  instant in America/New_York, reassembled as \<open>year-month-day\<close>.
\<close>

definition getETDateString :: "int \<Rightarrow> string" where
  "getETDateString utcTimestamp =
     (let n = Day (LocalTime USEastern utcTimestamp);
          month = pad2 (nat (MonthFromDay n + 1));
          day = pad2 (nat (DateFromDay n));
          year = yearNumeric (YearFromDay n)
      in year @ ''-'' @ month @ ''-'' @ day)"

text \<open>\<open>getCurrentDateInET\<close>, the clock reading \<open>now\<close> made a parameter.\<close>

definition getCurrentDateInET :: "int \<Rightarrow> string" where
  "getCurrentDateInET now =
     (let n = Day (LocalTime USEastern now);
          month = pad2 (nat (MonthFromDay n + 1));
          day = pad2 (nat (DateFromDay n));
          year = yearNumeric (YearFromDay n)
      in year @ ''-'' @ month @ ''-'' @ day)"

text \<open>
  \<open>getDateTimeLocalValueInET\<close>: the value \<open>YYYY-MM-DDTHH:mm\<close> of a
  \<open>datetime-local\<close> input, the wall clock of the instant in America/New_York on a
  24-hour clock that starts at 00.  Seconds and milliseconds are dropped.
\<close>

definition getDateTimeLocalValueInET :: "int \<Rightarrow> string" where
  "getDateTimeLocalValueInET t =
     (let lt = LocalTime USEastern t;
          n = Day lt;
          month = pad2 (nat (MonthFromDay n + 1));
          day = pad2 (nat (DateFromDay n));
          year = yearNumeric (YearFromDay n);
          timePart = pad2 (nat (TimeWithinDay lt div msPerHour)) @ '':'' @
                     pad2 (nat (TimeWithinDay lt mod msPerHour div msPerMinute))
      in year @ ''-'' @ month @ ''-'' @ day @ ''T'' @ timePart)"

text \<open>\<open>new Date("YYYY-MM-DDTHH:mm")\<close> in the browser's zone.\<close>

definition newDateLocalMinute :: "zone \<Rightarrow> string \<Rightarrow> int option" where
  "newDateLocalMinute z s =
     (if length s = 16 \<and> s ! 10 = CHR ''T'' \<and> s ! 13 = CHR '':'' then
        (case (digitsVal 0 (take 2 (drop 11 s)), digitsVal 0 (drop 14 s)) of
           (Some h, Some mi) \<Rightarrow>
             if h \<le> 23 \<and> mi \<le> 59 then newDateLocal z (take 10 s) (int h) (int mi) 0 else None
         | _ \<Rightarrow> None)
      else None)"

text \<open>
  \<open>convertLocalDateTimeToUTC\<close>.  \<open>etDate\<close> reads the form value in the browser's
  zone; \<open>utcDate\<close> renders \<open>etDate\<close> in UTC (to the second) and reads that rendering
  back in the browser's zone; the result is \<open>etDate\<close> moved by their difference.
  \<open>None\<close>: \<open>toISOString\<close> throws on an invalid date.  The result is the instant that
  the returned ISO string denotes.
\<close>

definition convertLocalDateTimeToUTC :: "zone \<Rightarrow> string \<Rightarrow> int option" where
  "convertLocalDateTimeToUTC z localDateTimeString =
     (case newDateLocalMinute z localDateTimeString of
        None \<Rightarrow> None
      | Some etDate \<Rightarrow>
          (let utcDate = UTCofLocal z (etDate - etDate mod 1000);
               offset = etDate - utcDate;
               correctedDate = etDate + offset
           in Some correctedDate))"

section \<open>Payment records and the dashboard filter\<close>

text \<open>
  A \<open>Payment\<close> row.  \<open>timestamp\<close> is the instant that the stored ISO string denotes;
  \<open>amount_paid\<close> is the exact decimal that the \<open>numeric\<close> column stores; the client
  reads it as the binary64 number nearest to it (\<open>roundDouble\<close>, in the section on
  summaries).  \<open>payment_method\<close> is a string, as the report function declares it.
\<close>

record payment =
  payment_id :: string
  client_name :: string
  payment_method :: string
  amount_paid :: rat
  timestamp :: int
  service_type :: "string option"

text \<open>The filter state of \<open>App\<close>: four strings, empty meaning "no filter".\<close>

record filter_criteria =
  searchTerm :: string
  dateFrom :: string
  dateTo :: string
  paymentMethod :: string

text \<open>
  \<open>new Date(d.getFullYear(), d.getMonth(), d.getDate())\<close>: midnight, in the browser's
  zone, of the day on which \<open>d\<close> falls in the browser's zone.
\<close>

definition dateOnly :: "zone \<Rightarrow> int \<Rightarrow> int" where
  "dateOnly z d = newDateYMD z (getFullYear z d) (getMonth z d) (getDate z d)"

text \<open>
  A bound of the date range as the filter callback computes it: \<open>None\<close> is \<open>null\<close>
  (no bound), \<open>Some None\<close> an invalid \<open>Date\<close>, \<open>Some (Some t)\<close> a time value.
\<close>

definition boundDateOnly :: "zone \<Rightarrow> string \<Rightarrow> int \<Rightarrow> int \<Rightarrow> int \<Rightarrow> int option option" where
  "boundDateOnly z key h mi s =
     (if key \<noteq> [] then Some (map_option (dateOnly z) (newDateLocal z key h mi s)) else None)"

text \<open>\<open>!bound || paymentDateOnly >= bound\<close>; a comparison with an invalid date is false.\<close>

definition matchesDateFrom :: "int \<Rightarrow> int option option \<Rightarrow> bool" where
  "matchesDateFrom paymentDateOnly fromDateOnly =
     (case fromDateOnly of None \<Rightarrow> True | Some None \<Rightarrow> False
      | Some (Some f) \<Rightarrow> f \<le> paymentDateOnly)"

definition matchesDateTo :: "int \<Rightarrow> int option option \<Rightarrow> bool" where
  "matchesDateTo paymentDateOnly toDateOnly =
     (case toDateOnly of None \<Rightarrow> True | Some None \<Rightarrow> False
      | Some (Some u) \<Rightarrow> paymentDateOnly \<le> u)"

text \<open>The callback of \<open>payments.filter\<close> in \<open>App\<close>, for a browser in zone \<open>z\<close>.\<close>

definition filterCallback :: "zone \<Rightarrow> filter_criteria \<Rightarrow> payment \<Rightarrow> bool" where
  "filterCallback z c p =
     (let matchesSearch = includes_js (toLowerCase (client_name p)) (toLowerCase (searchTerm c))
      in if (dateFrom c \<noteq> [] \<or> dateTo c \<noteq> []) \<and>
            (let paymentDateOnly = dateOnly z (timestamp p);
                 fromDateOnly = boundDateOnly z (dateFrom c) 0 0 0;
                 toDateOnly = boundDateOnly z (dateTo c) 23 59 59
             in \<not> matchesDateFrom paymentDateOnly fromDateOnly \<or>
                \<not> matchesDateTo paymentDateOnly toDateOnly)
         then False
         else (let matchesMethod = (paymentMethod c = [] \<or> payment_method p = paymentMethod c)
               in matchesSearch \<and> matchesMethod))"

definition filteredPayments :: "zone \<Rightarrow> filter_criteria \<Rightarrow> payment list \<Rightarrow> payment list" where
  "filteredPayments z c payments = filter (filterCallback z c) payments"

section \<open>Numbers\<close>

text \<open>
  The sums are JavaScript numbers: IEEE 754 binary64, added with round to nearest, ties to
  even.  A finite number is kept as the rational that it denotes, so \<open>Finite 0\<close> stands
  for both zeros; the infinities and the one NaN are separate values.
\<close>

datatype double = Finite rat | PosInf | NegInf | NaN

text \<open>The number of binary digits of a positive integer.\<close>

function bitLength :: "int \<Rightarrow> int" where
  "bitLength n = (if n \<le> 0 then 0 else 1 + bitLength (n div 2))"
  by pat_completeness auto
termination
  by (relation "measure nat") auto

declare bitLength.simps [simp del]

definition pow2 :: "int \<Rightarrow> rat" where
  "pow2 e = 2 powi e"

text \<open>
  For \<open>x > 0\<close>, the exponent \<open>e\<close> with \<open>pow2 e \<le> x < pow2 (e + 1)\<close>: the quotient of
  a numerator of \<open>a\<close> binary digits and a denominator of \<open>b\<close> binary digits lies
  between \<open>pow2 (a - b - 1)\<close> and \<open>pow2 (a - b + 1)\<close>.
\<close>

definition floorLog2 :: "rat \<Rightarrow> int" where
  "floorLog2 x =
     (case quotient_of x of (p, q) \<Rightarrow>
        (let d = bitLength p - bitLength q
         in if pow2 d \<le> x then d else d - 1))"

text \<open>The nearest integer, the even one of two that are equally near.\<close>

definition roundHalfEven :: "rat \<Rightarrow> int" where
  "roundHalfEven y =
     (let f = \<lfloor>y\<rfloor>; r = y - of_int f
      in if r < 1 / 2 then f else if 1 / 2 < r then f + 1 else if even f then f else f + 1)"

text \<open>
  The nearest multiple of \<open>pow2 e\<close>, where \<open>e\<close> leaves 53 binary digits to the result
  and is at least \<open>-1074\<close>, the exponent of the subnormal numbers.
\<close>

definition roundFinite :: "rat \<Rightarrow> rat" where
  "roundFinite x =
     (if x = 0 then 0
      else (let e = max (floorLog2 \<bar>x\<bar> - 52) (- 1074);
                m = roundHalfEven (\<bar>x\<bar> / pow2 e)
            in sgn x * (of_int m * pow2 e)))"

text \<open>
  The binary64 number of a rational: the rounded value, or an infinity when the rounded
  value reaches \<open>pow2 1024\<close>.  It is the number that a decimal literal denotes, and so
  the number that \<open>Number\<close> and \<open>parseFloat\<close> return for a stored amount.
\<close>

definition roundDouble :: "rat \<Rightarrow> double" where
  "roundDouble x =
     (let r = roundFinite x
      in if r = 0 \<or> floorLog2 \<bar>r\<bar> < 1024 then Finite r
         else if 0 < r then PosInf else NegInf)"

text \<open>The operator \<open>+\<close> on numbers.\<close>

fun fadd :: "double \<Rightarrow> double \<Rightarrow> double" where
  "fadd (Finite x) (Finite y) = roundDouble (x + y)"
| "fadd NaN _ = NaN"
| "fadd _ NaN = NaN"
| "fadd PosInf NegInf = NaN"
| "fadd NegInf PosInf = NaN"
| "fadd PosInf _ = PosInf"
| "fadd _ PosInf = PosInf"
| "fadd NegInf _ = NegInf"
| "fadd _ NegInf = NegInf"

fun isFinite :: "double \<Rightarrow> bool" where
  "isFinite (Finite x) = True"
| "isFinite _ = False"

fun valueOf :: "double \<Rightarrow> rat" where
  "valueOf (Finite x) = x"
| "valueOf _ = 0"

text \<open>The operator \<open>===\<close> on numbers: NaN equals nothing.\<close>

definition strictEquals :: "double \<Rightarrow> double \<Rightarrow> bool" where
  "strictEquals a b = (a \<noteq> NaN \<and> a = b)"

text \<open>Half the distance from 1 to the next number.\<close>

definition unitRoundoff :: rat where
  "unitRoundoff = 1 / 2 ^ 53"

section \<open>Summaries\<close>

text \<open>The constraint \<open>payments_payment_method_check\<close> of the \<open>payments\<close> table.\<close>

definition payments_payment_method_check :: "string \<Rightarrow> bool" where
  "payments_payment_method_check m =
     (m = ''Cash'' \<or> m = ''Zelle'' \<or> m = ''Check'' \<or> m = ''Booker CC'')"

text \<open>
  The values of the column \<open>amount_paid numeric(10, 2)\<close>: at most ten digits, two of them
  after the point.
\<close>

definition amount_paid_numeric_10_2 :: "rat \<Rightarrow> bool" where
  "amount_paid_numeric_10_2 a = (\<bar>a\<bar> < 10 ^ 8 \<and> of_int \<lfloor>a * 100\<rfloor> = a * 100)"

record summary =
  cash :: double
  zelle :: double
  check :: double
  bookerCC :: double
  total :: double

definition summaryZero :: summary where
  "summaryZero =
     \<lparr>cash = Finite 0, zelle = Finite 0, check = Finite 0, bookerCC = Finite 0, total = Finite 0\<rparr>"

text \<open>
  The invariant of the specification, \<open>total == cash + zelle + check + bookerCC\<close>, with
  the sum taken from left to right.
\<close>

definition sumOfMethods :: "summary \<Rightarrow> double" where
  "sumOfMethods sm = fadd (fadd (fadd (cash sm) (zelle sm)) (check sm)) (bookerCC sm)"

definition totalIsSumOfMethods :: "summary \<Rightarrow> bool" where
  "totalIsSumOfMethods sm = strictEquals (total sm) (sumOfMethods sm)"

text \<open>
  The invariant up to rounding: all sums are finite, and the total differs from the sum
  of the four method sums by at most \<open>(n + 4) / 2 ^ 51\<close> times the sum of the absolute
  amounts, for a subset of \<open>n\<close> records.
\<close>

definition roundingErrorBound :: "payment list \<Rightarrow> rat" where
  "roundingErrorBound ps = (of_nat (length ps) + 4) / 2 ^ 51 * (\<Sum>p\<leftarrow>ps. \<bar>amount_paid p\<bar>)"

definition totalNearSumOfMethods :: "summary \<Rightarrow> payment list \<Rightarrow> bool" where
  "totalNearSumOfMethods sm ps =
     (isFinite (total sm) \<and> isFinite (sumOfMethods sm) \<and>
      \<bar>valueOf (total sm) - valueOf (sumOfMethods sm)\<bar> \<le> roundingErrorBound ps)"

text \<open>The reducer of \<open>SummaryCards\<close>.\<close>

definition summaryReducer :: "summary \<Rightarrow> payment \<Rightarrow> summary" where
  "summaryReducer acc p =
     (let amount = roundDouble (amount_paid p);
          acc1 = acc\<lparr>total := fadd (total acc) amount\<rparr>
      in if payment_method p = ''Cash'' then acc1\<lparr>cash := fadd (cash acc1) amount\<rparr>
         else if payment_method p = ''Zelle'' then acc1\<lparr>zelle := fadd (zelle acc1) amount\<rparr>
         else if payment_method p = ''Check'' then acc1\<lparr>check := fadd (check acc1) amount\<rparr>
         else if payment_method p = ''Booker CC'' then acc1\<lparr>bookerCC := fadd (bookerCC acc1) amount\<rparr>
         else acc1)"

definition SummaryCards_summary :: "payment list \<Rightarrow> summary" where
  "SummaryCards_summary payments = foldl summaryReducer summaryZero payments"

section \<open>The report function\<close>

text \<open>
  The filter of \<open>generate-payment-report\<close>: string comparison of the New York date of
  the record with the two query parameters, and exact match of the method.
\<close>

definition reportFilterCallback :: "string \<Rightarrow> string \<Rightarrow> string \<Rightarrow> payment \<Rightarrow> bool" where
  "reportFilterCallback dateFrom' dateTo' paymentMethod' p =
     (let paymentETDate = getETDateString (timestamp p);
          inDateRange = (js_str_le dateFrom' paymentETDate \<and> js_str_le paymentETDate dateTo');
          matchesMethod = (paymentMethod' = [] \<or> payment_method p = paymentMethod')
      in inDateRange \<and> matchesMethod)"

definition reportFilteredPayments :: "string \<Rightarrow> string \<Rightarrow> string \<Rightarrow> payment list \<Rightarrow> payment list" where
  "reportFilteredPayments dateFrom' dateTo' paymentMethod' allPayments =
     filter (reportFilterCallback dateFrom' dateTo' paymentMethod') allPayments"

text \<open>The body of the \<open>forEach\<close> that fills the \<open>DailySummary\<close>.\<close>

definition reportSummaryStep :: "summary \<Rightarrow> payment \<Rightarrow> summary" where
  "reportSummaryStep sm p =
     (let amount = roundDouble (amount_paid p);
          sm1 = sm\<lparr>total := fadd (total sm) amount\<rparr>
      in if payment_method p = ''Cash'' then sm1\<lparr>cash := fadd (cash sm1) amount\<rparr>
         else if payment_method p = ''Zelle'' then sm1\<lparr>zelle := fadd (zelle sm1) amount\<rparr>
         else if payment_method p = ''Check'' then sm1\<lparr>check := fadd (check sm1) amount\<rparr>
         else if payment_method p = ''Booker CC'' then sm1\<lparr>bookerCC := fadd (bookerCC sm1) amount\<rparr>
         else sm1)"

definition reportSummary :: "payment list \<Rightarrow> summary" where
  "reportSummary filtered = foldl reportSummaryStep summaryZero filtered"

text \<open>
  What \<open>generateHTMLReport\<close> puts into the document: the two dates of the title, the
  method line, the five sums, and either the rows or the "no payments" block.
\<close>

record report_document =
  titleFrom :: string
  titleTo :: string
  oneDayTitle :: bool
  methodFilter :: string
  docSummary :: summary
  rows :: "payment list"
  noPayments :: bool

definition generateHTMLReport ::
  "payment list \<Rightarrow> summary \<Rightarrow> string \<Rightarrow> string \<Rightarrow> string \<Rightarrow> report_document" where
  "generateHTMLReport payments sm dateFrom' dateTo' paymentMethod' =
     \<lparr>titleFrom = dateFrom', titleTo = dateTo', oneDayTitle = (dateFrom' = dateTo'),
      methodFilter = (if paymentMethod' \<noteq> [] then '' ('' @ paymentMethod' @ '' only)''
                      else '' (All Payment Methods)''),
      docSummary = sm, rows = payments, noPayments = (\<not> 0 < length payments)\<rparr>"

text \<open>
  A request: the method and the three query parameters as \<open>searchParams.get\<close> returns
  them (\<open>None\<close> is \<open>null\<close>).  The outcome of the query on the \<open>payments\<close> table is the
  second argument of the handler; \<open>QueryError\<close> stands for the error of the query and
  for any other exception raised inside the \<open>try\<close> block.
\<close>

record request =
  req_method :: string
  q_dateFrom :: "string option"
  q_dateTo :: "string option"
  q_paymentMethod :: "string option"

datatype query_result = QueryError string | QueryRows "payment list"

datatype response_body =
    NoBody
  | JsonRequired string
  | JsonFailure string "string option" "string option"
  | Html report_document

record response =
  status :: nat
  contentType :: "string option"
  body :: response_body

text \<open>JavaScript truthiness of a nullable string.\<close>

definition truthy :: "string option \<Rightarrow> bool" where
  "truthy v = (case v of None \<Rightarrow> False | Some s \<Rightarrow> s \<noteq> [])"

definition serve :: "request \<Rightarrow> query_result \<Rightarrow> response" where
  "serve req db =
     (if req_method req = ''OPTIONS'' then \<lparr>status = 200, contentType = None, body = NoBody\<rparr>
      else
        (let paymentMethod' = (if truthy (q_paymentMethod req) then the (q_paymentMethod req) else [])
         in if \<not> truthy (q_dateFrom req) \<or> \<not> truthy (q_dateTo req) then
              \<lparr>status = 400, contentType = Some ''application/json'',
               body = JsonRequired ''dateFrom and dateTo parameters are required''\<rparr>
            else
              (case db of
                 QueryError message \<Rightarrow>
                   \<lparr>status = 500, contentType = Some ''application/json'',
                    body = JsonFailure message (q_dateFrom req) (q_dateTo req)\<rparr>
               | QueryRows allPayments \<Rightarrow>
                   (let dateFrom' = the (q_dateFrom req);
                        dateTo' = the (q_dateTo req);
                        filtered = reportFilteredPayments dateFrom' dateTo' paymentMethod' allPayments;
                        sm = reportSummary filtered
                    in \<lparr>status = 200, contentType = Some ''text/html'',
                        body = Html (generateHTMLReport filtered sm dateFrom' dateTo' paymentMethod')\<rparr>))))"

section \<open>Day navigation of \<open>SearchFilter\<close>\<close>

text \<open>
  The three lines shared by the two arrow buttons: read the key at local noon, move the
  day of the month by \<open>delta\<close>, and take the date part of the ISO (UTC) rendering.
  \<open>None\<close>: the key does not parse, and \<open>toISOString\<close> throws.
\<close>

definition shiftedDay :: "zone \<Rightarrow> int \<Rightarrow> string \<Rightarrow> string option" where
  "shiftedDay z delta key =
     (case newDateLocal z key 12 0 0 of
        None \<Rightarrow> None
      | Some date \<Rightarrow> Some (isoDatePart (setDate z date (getDate z date + delta))))"

definition previousDay :: "zone \<Rightarrow> string \<Rightarrow> string option" where
  "previousDay z key = shiftedDay z (- 1) key"

definition nextDay :: "zone \<Rightarrow> string \<Rightarrow> string option" where
  "nextDay z key = shiftedDay z 1 key"

text \<open>
  The click handlers.  An exception thrown by the handler leaves the filter state as it
  was.
\<close>

definition goToPreviousDay :: "zone \<Rightarrow> filter_criteria \<Rightarrow> filter_criteria" where
  "goToPreviousDay z c =
     (if dateFrom c \<noteq> [] then
        (case previousDay z (dateFrom c) of
           None \<Rightarrow> c
         | Some newDate \<Rightarrow> c\<lparr>dateFrom := newDate, dateTo := newDate\<rparr>)
      else c)"

definition goToNextDay :: "zone \<Rightarrow> filter_criteria \<Rightarrow> filter_criteria" where
  "goToNextDay z c =
     (if dateFrom c \<noteq> [] then
        (case nextDay z (dateFrom c) of
           None \<Rightarrow> c
         | Some newDate \<Rightarrow> c\<lparr>dateFrom := newDate, dateTo := newDate\<rparr>)
      else c)"

section \<open>Store actions of \<open>App\<close>\<close>

text \<open>
  The state that the handlers touch, the calls they make on the store and the alerts they
  raise.  What the store answers is an argument: \<open>Failed\<close> covers both an \<open>error\<close> in
  the answer and a rejected call.
\<close>

record app_state =
  payments :: "payment list"
  isFormOpen :: bool
  editingPayment :: "payment option"
  isLoading :: bool

record payment_form_data =
  form_client_name :: string
  form_payment_method :: string
  form_amount_paid :: rat
  form_timestamp :: int
  form_service_type :: string

datatype 'a store_result = Succeeded 'a | Failed string

datatype effect =
    StoreInsert payment_form_data
  | StoreUpdate string payment_form_data
  | StoreDelete string
  | StoreList
  | Alert string

definition loadPayments :: "app_state \<Rightarrow> payment list store_result \<Rightarrow> app_state \<times> effect list" where
  "loadPayments st listResult =
     (case listResult of
        Succeeded data \<Rightarrow> (st\<lparr>payments := data, isLoading := False\<rparr>, [StoreList])
      | Failed e \<Rightarrow>
          (st\<lparr>isLoading := False\<rparr>, [StoreList, Alert ''Failed to load payments. Please try again.'']))"

definition handleAddPayment ::
  "app_state \<Rightarrow> payment_form_data \<Rightarrow> unit store_result \<Rightarrow> payment list store_result
     \<Rightarrow> app_state \<times> effect list" where
  "handleAddPayment st formData insertResult listResult =
     (case insertResult of
        Failed e \<Rightarrow> (st, [StoreInsert formData, Alert ''Failed to add payment. Please try again.''])
      | Succeeded u \<Rightarrow>
          (let (st1, effs) = loadPayments st listResult
           in (st1\<lparr>isFormOpen := False\<rparr>, StoreInsert formData # effs)))"

definition handleUpdatePayment ::
  "app_state \<Rightarrow> payment_form_data \<Rightarrow> unit store_result \<Rightarrow> payment list store_result
     \<Rightarrow> app_state \<times> effect list" where
  "handleUpdatePayment st formData updateResult listResult =
     (case editingPayment st of
        None \<Rightarrow> (st, [])
      | Some editing \<Rightarrow>
          (case updateResult of
             Failed e \<Rightarrow>
               (st, [StoreUpdate (payment_id editing) formData,
                     Alert ''Failed to update payment. Please try again.''])
           | Succeeded u \<Rightarrow>
               (let (st1, effs) = loadPayments st listResult
                in (st1\<lparr>editingPayment := None\<rparr>,
                    StoreUpdate (payment_id editing) formData # effs))))"

definition handleDeletePayment ::
  "app_state \<Rightarrow> string \<Rightarrow> unit store_result \<Rightarrow> payment list store_result
     \<Rightarrow> app_state \<times> effect list" where
  "handleDeletePayment st ident deleteResult listResult =
     (case deleteResult of
        Failed e \<Rightarrow> (st, [StoreDelete ident, Alert ''Failed to delete payment. Please try again.''])
      | Succeeded u \<Rightarrow>
          (let (st1, effs) = loadPayments st listResult
           in (st1, StoreDelete ident # effs)))"

text \<open>What the dashboard shows: the visible subset and its summary, recomputed from the state.\<close>

definition dashboardView :: "zone \<Rightarrow> filter_criteria \<Rightarrow> app_state \<Rightarrow> payment list \<times> summary" where
  "dashboardView z c st =
     (filteredPayments z c (payments st), SummaryCards_summary (filteredPayments z c (payments st)))"

section \<open>Report download\<close>

datatype fetch_result = FetchRejected | FetchResponse bool string

datatype report_outcome = Download string string | ReportAlert

text \<open>The request that \<open>handleGenerateCurrentReport\<close> sends.\<close>

definition resolvedFrom :: "filter_criteria \<Rightarrow> int \<Rightarrow> string" where
  "resolvedFrom c now = (if dateFrom c \<noteq> [] then dateFrom c else getCurrentDateInET now)"

definition resolvedTo :: "filter_criteria \<Rightarrow> int \<Rightarrow> string" where
  "resolvedTo c now = (if dateTo c \<noteq> [] then dateTo c else getCurrentDateInET now)"

definition reportRequest :: "filter_criteria \<Rightarrow> int \<Rightarrow> int \<Rightarrow> request" where
  "reportRequest c now1 now2 =
     \<lparr>req_method = ''GET'', q_dateFrom = Some (resolvedFrom c now1),
      q_dateTo = Some (resolvedTo c now2), q_paymentMethod = Some (paymentMethod c)\<rparr>"

definition reportFilename :: "string \<Rightarrow> string \<Rightarrow> string" where
  "reportFilename fromDate toDate =
     (if fromDate = toDate then ''payment-report-'' @ fromDate @ ''.html''
      else ''payment-report-'' @ fromDate @ ''-to-'' @ toDate @ ''.html'')"

definition handleGenerateCurrentReport ::
  "filter_criteria \<Rightarrow> int \<Rightarrow> int \<Rightarrow> fetch_result \<Rightarrow> report_outcome" where
  "handleGenerateCurrentReport c now1 now2 fetched =
     (let fromDate = resolvedFrom c now1;
          toDate = resolvedTo c now2
      in case fetched of
           FetchRejected \<Rightarrow> ReportAlert
         | FetchResponse ok html \<Rightarrow>
             if \<not> ok then ReportAlert else Download (reportFilename fromDate toDate) html)"

section \<open>Date keys of calendar days, and test data\<close>

text \<open>
  The date key of the calendar day with day number \<open>n\<close>, as a date input renders it
  (years 0 to 9999).
\<close>

definition dayKey :: "int \<Rightarrow> string" where
  "dayKey n =
     pad4 (nat (YearFromDay n)) @ ''-'' @ pad2 (nat (MonthFromDay n + 1)) @ ''-'' @
     pad2 (nat (DateFromDay n))"

text \<open>
  The days whose key has a four-digit year that \<open>new Date(year, month, date)\<close> takes
  literally: years 100 to 9999.
\<close>

definition keyedDay :: "int \<Rightarrow> bool" where
  "keyedDay n = (100 \<le> YearFromDay n \<and> YearFromDay n \<le> 9999)"

text \<open>
  The zones in which local noon falls on the same UTC calendar date: offsets above
  \<open>-12h\<close> and up to \<open>+12h\<close>, and New York.
\<close>

definition noonWithinUTCDay :: "zone \<Rightarrow> bool" where
  "noonWithinUTCDay z = (case z of FixedOffset k \<Rightarrow> - 720 < k \<and> k \<le> 720 | USEastern \<Rightarrow> True)"

text \<open>Criteria that select a single day, with no search text and every method.\<close>

definition singleDay :: "string \<Rightarrow> filter_criteria" where
  "singleDay key = \<lparr>searchTerm = [], dateFrom = key, dateTo = key, paymentMethod = []\<rparr>"

text \<open>The three records of the worked scenario, all stamped 2025-10-19T14:00Z.\<close>

definition scenarioRecords :: "payment list" where
  "scenarioRecords =
     [\<lparr>payment_id = ''a'', client_name = ''Ann'', payment_method = ''Cash'', amount_paid = 100,
       timestamp = MakeDate (MakeDay 2025 9 19) (MakeTime 14 0 0), service_type = None\<rparr>,
      \<lparr>payment_id = ''b'', client_name = ''Bob'', payment_method = ''Zelle'', amount_paid = 50,
       timestamp = MakeDate (MakeDay 2025 9 19) (MakeTime 14 0 0), service_type = None\<rparr>,
      \<lparr>payment_id = ''c'', client_name = ''Cy'', payment_method = ''Check'', amount_paid = - 20,
       timestamp = MakeDate (MakeDay 2025 9 19) (MakeTime 14 0 0), service_type = None\<rparr>]"

text \<open>A record stamped 2025-10-20T05:00Z: 01:00 on 20 October in New York, 22:00 on 19 October in Phoenix.\<close>

definition boundaryRecord :: payment where
  "boundaryRecord =
     \<lparr>payment_id = ''n'', client_name = ''Nia'', payment_method = ''Cash'', amount_paid = 40,
      timestamp = MakeDate (MakeDay 2025 9 20) (MakeTime 5 0 0), service_type = None\<rparr>"


definition idleState :: app_state where
  "idleState = \<lparr>payments = [boundaryRecord], isFormOpen = True,
                 editingPayment = Some boundaryRecord, isLoading = False\<rparr>"

definition sampleForm :: payment_form_data where
  "sampleForm = \<lparr>form_client_name = ''Ann'', form_payment_method = ''Cash'',
                  form_amount_paid = 100,
                  form_timestamp = MakeDate (MakeDay 2025 9 19) (MakeTime 14 0 0),
                  form_service_type = []\<rparr>"

text \<open>
  Three records of one cent, one cent and four cents, all stamped 2025-10-19T14:00Z, and
  the criteria that filter nothing.
\<close>

definition centRecords :: "payment list" where
  "centRecords =
     [\<lparr>payment_id = ''p'', client_name = ''Pat'', payment_method = ''Cash'', amount_paid = 1 / 100,
       timestamp = MakeDate (MakeDay 2025 9 19) (MakeTime 14 0 0), service_type = None\<rparr>,
      \<lparr>payment_id = ''q'', client_name = ''Quin'', payment_method = ''Zelle'', amount_paid = 1 / 100,
       timestamp = MakeDate (MakeDay 2025 9 19) (MakeTime 14 0 0), service_type = None\<rparr>,
      \<lparr>payment_id = ''r'', client_name = ''Ray'', payment_method = ''Cash'', amount_paid = 4 / 100,
       timestamp = MakeDate (MakeDay 2025 9 19) (MakeTime 14 0 0), service_type = None\<rparr>]"

definition noCriteria :: filter_criteria where
  "noCriteria = \<lparr>searchTerm = [], dateFrom = [], dateTo = [], paymentMethod = []\<rparr>"

text \<open>A record stamped 1990-06-15T12:00Z.\<close>

definition oldRecord :: payment where
  "oldRecord =
     \<lparr>payment_id = ''o'', client_name = ''Old'', payment_method = ''Cash'', amount_paid = 10,
      timestamp = MakeDate (MakeDay 1990 5 15) (MakeTime 12 0 0), service_type = None\<rparr>"

section \<open>Lemmas on the calendar\<close>

lemma div_step:
  fixes x k :: int
  assumes "0 < k"
  shows "(x + 1) div k = x div k + (if (x + 1) mod k = 0 then 1 else 0)"
proof -
  have e: "k * (x div k) + x mod k = x" by simp
  have b: "0 \<le> x mod k" "x mod k < k" using assms by simp_all
  show ?thesis
  proof (cases "x mod k + 1 = k")
    case True
    have d: "k * (x div k + 1) = k * (x div k) + k" by (simp add: distrib_left)
    have s: "x + 1 = k * (x div k + 1) + 0" using e True d by linarith
    have "(x + 1) div k = x div k + 1" by (rule int_div_pos_eq [OF s]) (use assms in simp_all)
    moreover have "(x + 1) mod k = 0" by (rule int_mod_pos_eq [OF s]) (use assms in simp_all)
    ultimately show ?thesis by simp
  next
    case False
    then have lt: "x mod k + 1 < k" using b by simp
    have s: "x + 1 = k * (x div k) + (x mod k + 1)" using e by linarith
    have "(x + 1) div k = x div k" by (rule int_div_pos_eq [OF s]) (use b lt in simp_all)
    moreover have "(x + 1) mod k = x mod k + 1" by (rule int_mod_pos_eq [OF s]) (use b lt in simp_all)
    ultimately show ?thesis using b by simp
  qed
qed

lemma mod_shift_const:
  fixes y :: int
  shows "(y - k * c) mod k = y mod k"
  using mod_mult_self2 [of "y - k * c" k c] by simp

lemma DayFromYear_Suc: "DayFromYear (y + 1) = DayFromYear y + DaysInYear y"
proof -
  have a4: "(y - 1968) div 4 = (y - 1969) div 4 + (if y mod 4 = 0 then 1 else 0)"
  proof -
    have "(y - 1969 + 1) mod 4 = y mod 4"
      using mod_shift_const [of y 4 492] by (simp add: algebra_simps)
    then show ?thesis using div_step [of 4 "y - 1969"] by (simp add: algebra_simps)
  qed
  have a100: "(y - 1900) div 100 = (y - 1901) div 100 + (if y mod 100 = 0 then 1 else 0)"
  proof -
    have "(y - 1901 + 1) mod 100 = y mod 100"
      using mod_shift_const [of y 100 19] by (simp add: algebra_simps)
    then show ?thesis using div_step [of 100 "y - 1901"] by (simp add: algebra_simps)
  qed
  have a400: "(y - 1600) div 400 = (y - 1601) div 400 + (if y mod 400 = 0 then 1 else 0)"
  proof -
    have "(y - 1601 + 1) mod 400 = y mod 400"
      using mod_shift_const [of y 400 4] by (simp add: algebra_simps)
    then show ?thesis using div_step [of 400 "y - 1601"] by (simp add: algebra_simps)
  qed
  have d4: "(4::int) dvd 100" and d100: "(100::int) dvd 400" by simp_all
  have m100: "y mod 100 = 0 \<Longrightarrow> y mod 4 = 0"
    using d4 by (meson dvd_trans mod_0_imp_dvd dvd_imp_mod_0)
  have m400: "y mod 400 = 0 \<Longrightarrow> y mod 100 = 0"
    using d100 by (meson dvd_trans mod_0_imp_dvd dvd_imp_mod_0)
  have s1: "y + 1 - 1969 = y - 1968" "y + 1 - 1901 = y - 1900" "y + 1 - 1601 = y - 1600"
    "y + 1 - 1970 = y - 1969" by simp_all
  have e: "DayFromYear (y + 1) =
      365 * (y - 1969) + (y - 1968) div 4 - (y - 1900) div 100 + (y - 1600) div 400"
    unfolding DayFromYear_def s1 ..
  consider (c400) "y mod 400 = 0" | (c100) "y mod 400 \<noteq> 0" "y mod 100 = 0"
    | (c4) "y mod 100 \<noteq> 0" "y mod 4 = 0" | (c1) "y mod 4 \<noteq> 0"
    by blast
  then show ?thesis
  proof cases
    case c400
    then have "y mod 100 = 0" "y mod 4 = 0" using m100 m400 by simp_all
    with c400 show ?thesis
      unfolding e a4 a100 a400 unfolding DayFromYear_def DaysInYear_def InLeapYear_def by simp
  next
    case c100
    then have "y mod 4 = 0" using m100 by simp
    with c100 show ?thesis
      unfolding e a4 a100 a400 unfolding DayFromYear_def DaysInYear_def InLeapYear_def by simp
  next
    case c4
    then have "y mod 400 \<noteq> 0" using m400 by auto
    with c4 show ?thesis
      unfolding e a4 a100 a400 unfolding DayFromYear_def DaysInYear_def InLeapYear_def by simp
  next
    case c1
    then have "y mod 100 \<noteq> 0" "y mod 400 \<noteq> 0" using m100 m400 by auto
    with c1 show ?thesis
      unfolding e a4 a100 a400 unfolding DayFromYear_def DaysInYear_def InLeapYear_def by simp
  qed
qed

lemma DayFromYear_mono_nat: "DayFromYear y \<le> DayFromYear (y + int k)"
proof (induction k)
  case 0
  then show ?case by simp
next
  case (Suc k)
  have "DayFromYear (y + int (Suc k)) = DayFromYear (y + int k) + DaysInYear (y + int k)"
    using DayFromYear_Suc [of "y + int k"] by (simp add: algebra_simps)
  moreover have "0 \<le> DaysInYear (y + int k)" by (simp add: DaysInYear_def)
  ultimately show ?case using Suc by linarith
qed

lemma DayFromYear_mono: "a \<le> b \<Longrightarrow> DayFromYear a \<le> DayFromYear b"
  using DayFromYear_mono_nat [of a "nat (b - a)"] by simp


lemma YearFromDay_cycles:
  obtains a c q r e where
    "n + 134774 = 146097 * a + 36524 * c + 1461 * q + 365 * r + e"
    "YearFromDay n = 1601 + 400 * a + 100 * c + 4 * q + r"
    "0 \<le> c" "c \<le> 3" "0 \<le> q" "q \<le> 24" "0 \<le> r" "r \<le> 3" "0 \<le> e" "e \<le> 365"
    "e < 365 \<or> (r = 3 \<and> (q < 24 \<or> c = 3))"
proof -
  define d0 where "d0 = n + 134774"
  define a where "a = d0 div 146097"
  define r0 where "r0 = d0 mod 146097"
  define k where "k = r0 div 36524"
  define c where "c = min 3 k"
  define r1 where "r1 = r0 - c * 36524"
  define q where "q = r1 div 1461"
  define r2 where "r2 = r1 mod 1461"
  define k' where "k' = r2 div 365"
  define r where "r = min 3 k'"
  define e where "e = r2 - 365 * r"
  have d0: "d0 = 146097 * a + r0" and r0: "0 \<le> r0" "r0 < 146097"
    by (simp_all add: a_def r0_def)
  have k: "r0 = 36524 * k + r0 mod 36524" "0 \<le> r0 mod 36524" "r0 mod 36524 < 36524"
    by (simp_all add: k_def)
  have kb: "0 \<le> k" "k \<le> 4" using k r0 by linarith+
  have c: "0 \<le> c" "c \<le> 3" using kb by (simp_all add: c_def)
  have r1: "0 \<le> r1" "r1 \<le> 36524" "c < 3 \<longrightarrow> r1 < 36524"
    using k kb r0 by (auto simp: r1_def c_def min_def)
  have q: "r1 = 1461 * q + r2" "0 \<le> r2" "r2 < 1461"
    by (simp_all add: q_def r2_def)
  have qb: "0 \<le> q" "q \<le> 24" using q r1 by linarith+
  have r2': "q = 24 \<and> c < 3 \<longrightarrow> r2 < 1460" using q r1 by linarith
  have k': "r2 = 365 * k' + r2 mod 365" "0 \<le> r2 mod 365" "r2 mod 365 < 365"
    by (simp_all add: k'_def)
  have k'b: "0 \<le> k'" "k' \<le> 4" using k' q by linarith+
  have r: "0 \<le> r" "r \<le> 3" using k'b by (simp_all add: r_def)
  have e: "0 \<le> e" "e \<le> 365" "e < 365 \<or> (r = 3 \<and> r2 = 1460)"
    using k' k'b q by (auto simp: e_def r_def min_def)
  have e': "e < 365 \<or> (r = 3 \<and> (q < 24 \<or> c = 3))"
    using e r2' qb c by linarith
  have sum: "n + 134774 = 146097 * a + 36524 * c + 1461 * q + 365 * r + e"
    using d0 q by (simp add: d0_def r1_def e_def)
  have yr: "YearFromDay n = 1601 + 400 * a + 100 * c + 4 * q + r"
    by (simp add: YearFromDay_def Let_def d0_def a_def r0_def k_def c_def r1_def q_def r2_def
        k'_def r_def)
  from sum yr c qb r e(1,2) e' show thesis by (rule that)
qed


lemma DayFromYear_cycles:
  assumes "0 \<le> c" "c \<le> 3" "0 \<le> q" "q \<le> 24" "0 \<le> r" "r \<le> (3::int)"
  shows "DayFromYear (1601 + 400 * a + 100 * c + 4 * q + r) =
           146097 * a + 36524 * c + 1461 * q + 365 * r - 134774"
proof -
  define y where "y = 1601 + 400 * a + 100 * c + 4 * q + r"
  have e4: "y - 1969 = 4 * (100 * a + 25 * c + q - 92) + r" by (simp add: y_def)
  have d4: "(y - 1969) div 4 = 100 * a + 25 * c + q - 92"
    by (rule int_div_pos_eq [OF e4]) (use assms in simp_all)
  have e100: "y - 1901 = 100 * (4 * a + c - 3) + (4 * q + r)" by (simp add: y_def)
  have d100: "(y - 1901) div 100 = 4 * a + c - 3"
    by (rule int_div_pos_eq [OF e100]) (use assms in linarith)+
  have e400: "y - 1601 = 400 * a + (100 * c + 4 * q + r)" by (simp add: y_def)
  have d400: "(y - 1601) div 400 = a"
    by (rule int_div_pos_eq [OF e400]) (use assms in linarith)+
  have "DayFromYear y = 146097 * a + 36524 * c + 1461 * q + 365 * r - 134774"
    unfolding DayFromYear_def d4 d100 d400 by (simp add: y_def)
  then show ?thesis by (simp add: y_def)
qed

lemma mod_zero_offset:
  fixes k m s :: int
  assumes "0 < s" "s \<le> k"
  shows "(k * m + s) mod k = 0 \<longleftrightarrow> s = k"
proof (cases "s = k")
  case True
  have "(k * m + k) mod k = 0" by simp
  with True show ?thesis by simp
next
  case False
  then have "s < k" using assms by simp
  have "(k * m + s) mod k = s"
    by (rule int_mod_pos_eq [of _ _ m]) (use assms \<open>s < k\<close> in simp_all)
  with False assms show ?thesis by simp
qed

lemma InLeapYear_cycles:
  assumes "0 \<le> c" "c \<le> 3" "0 \<le> q" "q \<le> 24" "0 \<le> r" "r \<le> (3::int)"
  shows "InLeapYear (1601 + 400 * a + 100 * c + 4 * q + r) \<longleftrightarrow> r = 3 \<and> (q < 24 \<or> c = 3)"
proof -
  define y where "y = 1601 + 400 * a + 100 * c + 4 * q + r"
  have e4: "y = 4 * (400 + 100 * a + 25 * c + q) + (1 + r)" by (simp add: y_def)
  have m4: "y mod 4 = 0 \<longleftrightarrow> 1 + r = 4"
    unfolding e4 by (rule mod_zero_offset) (use assms in linarith)+
  have e100: "y = 100 * (16 + 4 * a + c) + (1 + 4 * q + r)" by (simp add: y_def)
  have m100: "y mod 100 = 0 \<longleftrightarrow> 1 + 4 * q + r = 100"
    unfolding e100 by (rule mod_zero_offset) (use assms in linarith)+
  have e400: "y = 400 * (4 + a) + (1 + 100 * c + 4 * q + r)" by (simp add: y_def)
  have m400: "y mod 400 = 0 \<longleftrightarrow> 1 + 100 * c + 4 * q + r = 400"
    unfolding e400 by (rule mod_zero_offset) (use assms in linarith)+
  have "InLeapYear y \<longleftrightarrow> r = 3 \<and> (q < 24 \<or> c = 3)"
    unfolding InLeapYear_def m4 m100 m400 using assms by auto
  then show ?thesis by (simp add: y_def)
qed

lemma DayWithinYear_range:
  "0 \<le> DayWithinYear n \<and> DayWithinYear n < DaysInYear (YearFromDay n)"
proof -
  obtain a c q r e where
    sum: "n + 134774 = 146097 * a + 36524 * c + 1461 * q + 365 * r + e" and
    yr: "YearFromDay n = 1601 + 400 * a + 100 * c + 4 * q + r" and
    b: "0 \<le> c" "c \<le> 3" "0 \<le> q" "q \<le> 24" "0 \<le> r" "r \<le> 3" and
    e: "0 \<le> e" "e \<le> 365" "e < 365 \<or> (r = 3 \<and> (q < 24 \<or> c = 3))"
    by (rule YearFromDay_cycles)
  have "DayWithinYear n = e"
    unfolding DayWithinYear_def yr DayFromYear_cycles [OF b] using sum by linarith
  moreover have "e < DaysInYear (YearFromDay n)"
    unfolding DaysInYear_def yr InLeapYear_cycles [OF b] using e by auto
  ultimately show ?thesis using e by simp
qed

lemma YearFromDay_bounds:
  "DayFromYear (YearFromDay n) \<le> n \<and> n < DayFromYear (YearFromDay n + 1)"
  using DayWithinYear_range [of n] DayFromYear_Suc [of "YearFromDay n"]
  by (simp add: DayWithinYear_def)

lemma YearFromDay_unique:
  assumes "DayFromYear y \<le> n" "n < DayFromYear (y + 1)"
  shows "YearFromDay n = y"
proof (rule ccontr)
  assume ne: "YearFromDay n \<noteq> y"
  have b: "DayFromYear (YearFromDay n) \<le> n" "n < DayFromYear (YearFromDay n + 1)"
    using YearFromDay_bounds [of n] by simp_all
  show False
  proof (cases "YearFromDay n < y")
    case True
    then have "DayFromYear (YearFromDay n + 1) \<le> DayFromYear y"
      by (intro DayFromYear_mono) simp
    with b assms show False by linarith
  next
    case False
    with ne have "DayFromYear (y + 1) \<le> DayFromYear (YearFromDay n)"
      by (intro DayFromYear_mono) simp
    with b assms show False by linarith
  qed
qed

lemma MonthFromDay_range: "0 \<le> MonthFromDay n \<and> MonthFromDay n \<le> 11"
  by (simp add: MonthFromDay_def Let_def)

lemma MakeDay_fields: "MakeDay (YearFromDay n) (MonthFromDay n) (DateFromDay n) = n"
proof -
  have "MonthFromDay n div 12 = 0" "MonthFromDay n mod 12 = MonthFromDay n"
    using MonthFromDay_range [of n] by simp_all
  then show ?thesis
    by (simp add: MakeDay_def DateFromDay_def DayWithinYear_def)
qed

lemma MonthStart_simps:
  "MonthStart lp 0 = 0" "MonthStart lp 1 = 31" "MonthStart lp 2 = 59 + (if lp then 1 else 0)"
  "MonthStart lp 3 = 90 + (if lp then 1 else 0)" "MonthStart lp 4 = 120 + (if lp then 1 else 0)"
  "MonthStart lp 5 = 151 + (if lp then 1 else 0)" "MonthStart lp 6 = 181 + (if lp then 1 else 0)"
  "MonthStart lp 7 = 212 + (if lp then 1 else 0)" "MonthStart lp 8 = 243 + (if lp then 1 else 0)"
  "MonthStart lp 9 = 273 + (if lp then 1 else 0)" "MonthStart lp 10 = 304 + (if lp then 1 else 0)"
  "MonthStart lp 11 = 334 + (if lp then 1 else 0)"
  by (simp_all add: MonthStart_def)

lemma DateFromDay_range: "1 \<le> DateFromDay n \<and> DateFromDay n \<le> 31"
proof -
  define d where "d = DayWithinYear n"
  define lp where "lp = InLeapYear (YearFromDay n)"
  have b: "0 \<le> d" "d < (if lp then 366 else 365)"
    using DayWithinYear_range [of n] by (simp_all add: d_def lp_def DaysInYear_def)
  have "MonthStart lp (MonthFromDay n) \<le> d \<and> d \<le> MonthStart lp (MonthFromDay n) + 30"
    unfolding MonthFromDay_def Let_def d_def [symmetric] lp_def [symmetric]
    using b by (cases lp) (simp_all add: MonthStart_simps)
  then show ?thesis
    by (simp add: DateFromDay_def d_def lp_def)
qed

lemma YearFromDay_mono:
  assumes "a \<le> b"
  shows "YearFromDay a \<le> YearFromDay b"
proof (rule ccontr)
  assume "\<not> YearFromDay a \<le> YearFromDay b"
  then have "YearFromDay b + 1 \<le> YearFromDay a" by simp
  then have "DayFromYear (YearFromDay b + 1) \<le> DayFromYear (YearFromDay a)"
    by (rule DayFromYear_mono)
  with YearFromDay_bounds [of a] YearFromDay_bounds [of b] assms show False by linarith
qed

lemma month_of_day_mono:
  fixes d d' L :: int
  assumes "d \<le> d'"
  shows "(if d < 31 then 0 else if d < 59 + L then 1 else if d < 90 + L then 2
      else if d < 120 + L then 3 else if d < 151 + L then 4 else if d < 181 + L then 5
      else if d < 212 + L then 6 else if d < 243 + L then 7 else if d < 273 + L then 8
      else if d < 304 + L then 9 else if d < 334 + L then 10 else (11::int))
     \<le> (if d' < 31 then 0 else if d' < 59 + L then 1 else if d' < 90 + L then 2
      else if d' < 120 + L then 3 else if d' < 151 + L then 4 else if d' < 181 + L then 5
      else if d' < 212 + L then 6 else if d' < 243 + L then 7 else if d' < 273 + L then 8
      else if d' < 304 + L then 9 else if d' < 334 + L then 10 else 11)"
  using assms by (simp split: if_splits)

lemma fields_mono:
  assumes "a \<le> b"
  shows "YearFromDay a < YearFromDay b \<or>
         (YearFromDay a = YearFromDay b \<and>
          (MonthFromDay a < MonthFromDay b \<or>
           (MonthFromDay a = MonthFromDay b \<and> DateFromDay a \<le> DateFromDay b)))"
proof (cases "YearFromDay a = YearFromDay b")
  case False
  with YearFromDay_mono [OF assms] show ?thesis by simp
next
  case True
  have d: "DayWithinYear a \<le> DayWithinYear b"
    using assms by (simp add: DayWithinYear_def True)
  have m: "MonthFromDay a \<le> MonthFromDay b"
    unfolding MonthFromDay_def Let_def True by (rule month_of_day_mono [OF d])
  show ?thesis
  proof (cases "MonthFromDay a = MonthFromDay b")
    case False
    with m True show ?thesis by simp
  next
    case same: True
    have "DateFromDay a \<le> DateFromDay b"
      using d by (simp add: DateFromDay_def True same)
    with True same show ?thesis by simp
  qed
qed

lemma fields_inject:
  assumes "YearFromDay a = YearFromDay b" "MonthFromDay a = MonthFromDay b"
    "DateFromDay a = DateFromDay b"
  shows "a = b"
proof -
  from MakeDay_fields [of a]
  have "MakeDay (YearFromDay b) (MonthFromDay b) (DateFromDay b) = a" by (simp only: assms)
  then show ?thesis by (simp only: MakeDay_fields)
qed

lemma MakeDay_shift: "MakeDay y m (d + k) = MakeDay y m d + k"
  by (simp add: MakeDay_def Let_def)

section \<open>Lemmas on date keys\<close>

lemma digitVal_digitChar: "k < 10 \<Longrightarrow> digitVal (digitChar k) = Some k"
  by (simp add: digitVal_def digitChar_def Let_def)

lemma digitsVal_pad2: "n < 100 \<Longrightarrow> digitsVal 0 (pad2 n) = Some n"
proof -
  assume "n < 100"
  then have "n div 10 mod 10 = n div 10" by simp
  then show ?thesis
    by (simp add: pad2_def digitVal_digitChar)
qed

lemma digitsVal_pad4:
  assumes "n < 10000"
  shows "digitsVal 0 (pad4 n) = Some n"
proof -
  have a: "n div 1000 mod 10 = n div 1000" using assms by simp
  have b: "n div 100 = 10 * (n div 1000) + n div 100 mod 10"
    using div_mult2_eq [of n 100 10] by simp
  have c: "n div 10 = 10 * (n div 100) + n div 10 mod 10"
    using div_mult2_eq [of n 10 10] by simp
  have d: "n = 10 * (n div 10) + n mod 10" by simp
  have e: "10 * (10 * (10 * (n div 1000) + n div 100 mod 10) + n div 10 mod 10) + n mod 10 = n"
    using b c d by simp
  have q: "n div 1000 < 10" using assms by (simp add: less_mult_imp_div_less)
  have "digitsVal 0 (pad4 n) =
      Some (10 * (10 * (10 * (n div 1000) + n div 100 mod 10) + n div 10 mod 10) + n mod 10)"
    by (simp add: pad4_def digitVal_digitChar a q)
  then show ?thesis by (simp only: e)
qed

lemma parseDateKey_dayKey:
  assumes "0 \<le> YearFromDay n" "YearFromDay n \<le> 9999"
  shows "parseDateKey (dayKey n) = Some (YearFromDay n, MonthFromDay n + 1, DateFromDay n)"
proof -
  define y where "y = nat (YearFromDay n)"
  define m where "m = nat (MonthFromDay n + 1)"
  define d where "d = nat (DateFromDay n)"
  have y: "y < 10000" "int y = YearFromDay n" using assms unfolding y_def by arith+
  have m: "1 \<le> m" "m \<le> 12" "int m = MonthFromDay n + 1"
    using MonthFromDay_range [of n] unfolding m_def by arith+
  have d: "1 \<le> d" "d \<le> 31" "int d = DateFromDay n"
    using DateFromDay_range [of n] unfolding d_def by arith+
  have k: "dayKey n = pad4 y @ ''-'' @ pad2 m @ ''-'' @ pad2 d"
    by (simp add: dayKey_def y_def m_def d_def)
  have l: "length (pad4 y @ ''-'' @ pad2 m @ ''-'' @ pad2 d) = 10"
    "(pad4 y @ ''-'' @ pad2 m @ ''-'' @ pad2 d) ! 4 = CHR ''-''"
    "(pad4 y @ ''-'' @ pad2 m @ ''-'' @ pad2 d) ! 7 = CHR ''-''"
    "take 4 (pad4 y @ ''-'' @ pad2 m @ ''-'' @ pad2 d) = pad4 y"
    "take 2 (drop 5 (pad4 y @ ''-'' @ pad2 m @ ''-'' @ pad2 d)) = pad2 m"
    "drop 8 (pad4 y @ ''-'' @ pad2 m @ ''-'' @ pad2 d) = pad2 d"
    by (simp_all add: pad4_def pad2_def)
  have v: "digitsVal 0 (pad4 y) = Some y" "digitsVal 0 (pad2 m) = Some m"
    "digitsVal 0 (pad2 d) = Some d"
    using y m d by (simp_all add: digitsVal_pad4 digitsVal_pad2)
  show ?thesis
    unfolding parseDateKey_def k l v using y m d by simp
qed

lemma newDateLocal_dayKey:
  assumes "0 \<le> YearFromDay n" "YearFromDay n \<le> 9999"
  shows "newDateLocal z (dayKey n) h mi s = Some (UTCofLocal z (MakeDate n (MakeTime h mi s)))"
  by (simp add: newDateLocal_def parseDateKey_dayKey [OF assms] MakeDay_fields)

lemma digitChar_eq_iff: "i < 10 \<Longrightarrow> j < 10 \<Longrightarrow> digitChar i = digitChar j \<longleftrightarrow> i = j"
proof -
  assume a: "i < 10" "j < 10"
  have "of_char (digitChar i) = 48 + i" "of_char (digitChar j) = 48 + j"
    using a by (simp_all add: digitChar_def)
  then show ?thesis by (metis add_left_cancel)
qed

lemma digitChar_less_iff:
  "i < 10 \<Longrightarrow> j < 10 \<Longrightarrow> (of_char (digitChar i) :: nat) < of_char (digitChar j) \<longleftrightarrow> i < j"
  by (simp add: digitChar_def)

lemma js_str_le_digit:
  assumes "i < 10" "j < 10"
  shows "js_str_le (digitChar i # r) (digitChar j # s) \<longleftrightarrow> i < j \<or> (i = j \<and> js_str_le r s)"
  using assms by (auto simp: digitChar_eq_iff digitChar_less_iff)

lemma two_digit_order:
  fixes a1 a0 b1 b0 :: nat
  assumes "a0 < 10" "b0 < 10"
  shows "a1 < b1 \<or> (a1 = b1 \<and> (a0 < b0 \<or> (a0 = b0 \<and> P))) \<longleftrightarrow>
         10 * a1 + a0 < 10 * b1 + b0 \<or> (10 * a1 + a0 = 10 * b1 + b0 \<and> P)"
proof (cases "a1 < b1")
  case True
  with assms show ?thesis by auto
next
  case False
  show ?thesis
  proof (cases "a1 = b1")
    case True
    then show ?thesis by auto
  next
    case ne: False
    with False have "b1 < a1" by simp
    with assms show ?thesis by auto
  qed
qed

lemma js_str_le_pad2:
  assumes "a < 100" "b < 100"
  shows "js_str_le (pad2 a @ r) (pad2 b @ s) \<longleftrightarrow> a < b \<or> (a = b \<and> js_str_le r s)"
proof -
  have a: "a div 10 mod 10 = a div 10" "a div 10 < 10" "a mod 10 < 10" using assms by simp_all
  have b: "b div 10 mod 10 = b div 10" "b div 10 < 10" "b mod 10 < 10" using assms by simp_all
  have e: "10 * (a div 10) + a mod 10 = a" "10 * (b div 10) + b mod 10 = b" by simp_all
  have "js_str_le (pad2 a @ r) (pad2 b @ s) \<longleftrightarrow>
        a div 10 < b div 10 \<or>
        (a div 10 = b div 10 \<and> (a mod 10 < b mod 10 \<or> (a mod 10 = b mod 10 \<and> js_str_le r s)))"
    unfolding pad2_def a b by (simp only: append_Cons append_Nil js_str_le_digit a b)
  also have "\<dots> \<longleftrightarrow> 10 * (a div 10) + a mod 10 < 10 * (b div 10) + b mod 10 \<or>
      (10 * (a div 10) + a mod 10 = 10 * (b div 10) + b mod 10 \<and> js_str_le r s)"
    by (rule two_digit_order) (use a b in simp_all)
  finally show ?thesis by (simp only: e)
qed

lemma pad4_as_pad2: "pad4 n = pad2 (n div 100) @ pad2 (n mod 100)"
proof -
  have "n div 100 div 10 = n div 1000" using div_mult2_eq [of n 100 10] by simp
  moreover have "n mod 100 div 10 = n div 10 mod 10"
    using mod_mult2_eq [of n 10 10] by simp
  moreover have "n mod 100 mod 10 = n mod 10"
    by (simp add: mod_mod_cancel)
  ultimately show ?thesis by (simp add: pad4_def pad2_def)
qed

lemma two_block_order:
  fixes a1 a0 b1 b0 :: nat
  assumes "a0 < 100" "b0 < 100"
  shows "a1 < b1 \<or> (a1 = b1 \<and> (a0 < b0 \<or> (a0 = b0 \<and> P))) \<longleftrightarrow>
         100 * a1 + a0 < 100 * b1 + b0 \<or> (100 * a1 + a0 = 100 * b1 + b0 \<and> P)"
proof (cases "a1 < b1")
  case True
  with assms show ?thesis by auto
next
  case False
  show ?thesis
  proof (cases "a1 = b1")
    case True
    then show ?thesis by auto
  next
    case ne: False
    with False have "b1 < a1" by simp
    with assms show ?thesis by auto
  qed
qed

lemma js_str_le_pad4:
  assumes "a < 10000" "b < 10000"
  shows "js_str_le (pad4 a @ r) (pad4 b @ s) \<longleftrightarrow> a < b \<or> (a = b \<and> js_str_le r s)"
proof -
  have a: "a div 100 < 100" "a mod 100 < 100" using assms by (simp_all add: less_mult_imp_div_less)
  have b: "b div 100 < 100" "b mod 100 < 100" using assms by (simp_all add: less_mult_imp_div_less)
  have e: "100 * (a div 100) + a mod 100 = a" "100 * (b div 100) + b mod 100 = b" by simp_all
  have "js_str_le (pad4 a @ r) (pad4 b @ s) \<longleftrightarrow>
        a div 100 < b div 100 \<or>
        (a div 100 = b div 100 \<and>
         (a mod 100 < b mod 100 \<or> (a mod 100 = b mod 100 \<and> js_str_le r s)))"
    by (simp only: pad4_as_pad2 append_assoc js_str_le_pad2 a b)
  also have "\<dots> \<longleftrightarrow> 100 * (a div 100) + a mod 100 < 100 * (b div 100) + b mod 100 \<or>
      (100 * (a div 100) + a mod 100 = 100 * (b div 100) + b mod 100 \<and> js_str_le r s)"
    by (rule two_block_order) (use a b in simp_all)
  finally show ?thesis by (simp only: e)
qed

lemma js_str_le_dash: "js_str_le (''-'' @ r) (''-'' @ s) = js_str_le r s"
  by simp

lemma nat_order_iff:
  fixes x y :: int
  assumes "0 \<le> x" "0 \<le> y"
  shows "nat x < nat y \<longleftrightarrow> x < y" "nat x = nat y \<longleftrightarrow> x = y" "nat x \<le> nat y \<longleftrightarrow> x \<le> y"
  using assms by arith+

lemma js_str_le_dayKey_fields:
  assumes "0 \<le> YearFromDay a" "YearFromDay a \<le> 9999" "0 \<le> YearFromDay b" "YearFromDay b \<le> 9999"
  shows "js_str_le (dayKey a) (dayKey b) \<longleftrightarrow>
         YearFromDay a < YearFromDay b \<or>
         (YearFromDay a = YearFromDay b \<and>
          (MonthFromDay a < MonthFromDay b \<or>
           (MonthFromDay a = MonthFromDay b \<and> DateFromDay a \<le> DateFromDay b)))"
proof -
  define ya where "ya = nat (YearFromDay a)"
  define yb where "yb = nat (YearFromDay b)"
  define ma where "ma = nat (MonthFromDay a + 1)"
  define mb where "mb = nat (MonthFromDay b + 1)"
  define da where "da = nat (DateFromDay a)"
  define db where "db = nat (DateFromDay b)"
  have mr: "0 \<le> MonthFromDay a + 1" "MonthFromDay a + 1 \<le> 12" "0 \<le> MonthFromDay b + 1"
    "MonthFromDay b + 1 \<le> 12"
    using MonthFromDay_range [of a] MonthFromDay_range [of b] by simp_all
  have dr: "0 \<le> DateFromDay a" "DateFromDay a \<le> 31" "0 \<le> DateFromDay b" "DateFromDay b \<le> 31"
    using DateFromDay_range [of a] DateFromDay_range [of b] by simp_all
  have y: "ya < 10000" "yb < 10000" using assms by (simp_all add: ya_def yb_def)
  have m: "ma < 100" "mb < 100" using mr by (simp_all add: ma_def mb_def)
  have d: "da < 100" "db < 100" using dr by (simp_all add: da_def db_def)
  have yi: "ya < yb \<longleftrightarrow> YearFromDay a < YearFromDay b" "ya = yb \<longleftrightarrow> YearFromDay a = YearFromDay b"
    unfolding ya_def yb_def using assms by (simp_all only: nat_order_iff)
  have mi: "ma < mb \<longleftrightarrow> MonthFromDay a < MonthFromDay b" "ma = mb \<longleftrightarrow> MonthFromDay a = MonthFromDay b"
    unfolding ma_def mb_def using mr by arith+
  have di: "da \<le> db \<longleftrightarrow> DateFromDay a \<le> DateFromDay b"
    unfolding da_def db_def using dr by arith
  have last: "js_str_le (pad2 da) (pad2 db) \<longleftrightarrow> da \<le> db"
    using js_str_le_pad2 [OF d, of "[]" "[]"] by auto
  have k: "dayKey a = pad4 ya @ ''-'' @ pad2 ma @ ''-'' @ pad2 da"
    "dayKey b = pad4 yb @ ''-'' @ pad2 mb @ ''-'' @ pad2 db"
    by (simp_all add: dayKey_def ya_def yb_def ma_def mb_def da_def db_def)
  have "js_str_le (dayKey a) (dayKey b) \<longleftrightarrow>
        ya < yb \<or> (ya = yb \<and> (ma < mb \<or> (ma = mb \<and> da \<le> db)))"
    unfolding k
    by (simp only: js_str_le_pad4 [OF y] js_str_le_dash js_str_le_pad2 [OF m] last)
  then show ?thesis by (simp only: yi mi di)
qed


lemma js_str_le_dayKey:
  assumes "0 \<le> YearFromDay a" "YearFromDay a \<le> 9999" "0 \<le> YearFromDay b" "YearFromDay b \<le> 9999"
  shows "js_str_le (dayKey a) (dayKey b) \<longleftrightarrow> a \<le> b"
proof
  assume "js_str_le (dayKey a) (dayKey b)"
  then have l: "YearFromDay a < YearFromDay b \<or>
         (YearFromDay a = YearFromDay b \<and>
          (MonthFromDay a < MonthFromDay b \<or>
           (MonthFromDay a = MonthFromDay b \<and> DateFromDay a \<le> DateFromDay b)))"
    by (simp only: js_str_le_dayKey_fields [OF assms])
  show "a \<le> b"
  proof (rule ccontr)
    assume "\<not> a \<le> b"
    then have ba: "b \<le> a" and ne: "a \<noteq> b" by simp_all
    have r: "YearFromDay b < YearFromDay a \<or>
         (YearFromDay b = YearFromDay a \<and>
          (MonthFromDay b < MonthFromDay a \<or>
           (MonthFromDay b = MonthFromDay a \<and> DateFromDay b \<le> DateFromDay a)))"
      by (rule fields_mono [OF ba])
    from l r have
      "YearFromDay a = YearFromDay b \<and> MonthFromDay a = MonthFromDay b \<and>
       DateFromDay a = DateFromDay b"
      by auto
    then have "a = b" by (auto intro: fields_inject)
    with ne show False by simp
  qed
next
  assume "a \<le> b"
  then have "YearFromDay a < YearFromDay b \<or>
         (YearFromDay a = YearFromDay b \<and>
          (MonthFromDay a < MonthFromDay b \<or>
           (MonthFromDay a = MonthFromDay b \<and> DateFromDay a \<le> DateFromDay b)))"
    by (rule fields_mono)
  then show "js_str_le (dayKey a) (dayKey b)"
    by (simp only: js_str_le_dayKey_fields [OF assms])
qed

lemma decimal_four_digits:
  assumes "1000 \<le> n" "n < 10000"
  shows "decimal n = pad4 n"
proof -
  have a: "\<not> n < 10" "\<not> n div 10 < 10" "\<not> n div 10 div 10 < 10" "n div 10 div 10 div 10 < 10"
    using assms by simp_all
  have d: "n div 10 div 10 = n div 100" "n div 10 div 10 div 10 = n div 1000"
    "n div 1000 mod 10 = n div 1000" "n div 100 div 10 = n div 1000"
    using assms by (simp_all add: div_mult2_eq)
  have "decimal n = [digitChar (n div 10 div 10 div 10), digitChar (n div 10 div 10 mod 10),
      digitChar (n div 10 mod 10), digitChar (n mod 10)]"
    using a
    by (simp add: decimal.simps [of n] decimal.simps [of "n div 10"]
        decimal.simps [of "n div 10 div 10"] decimal.simps [of "n div 10 div 10 div 10"])
  then show ?thesis by (simp add: pad4_def d)
qed

lemma isoDatePart_dayKey:
  assumes "0 \<le> YearFromDay (Day t)" "YearFromDay (Day t) \<le> 9999"
  shows "isoDatePart t = dayKey (Day t)"
  using assms by (simp add: isoDatePart_def dayKey_def isoYear_def)

section \<open>Lemmas on the zones\<close>

lemma Day_bounds: "Day t * msPerDay \<le> t \<and> t < Day t * msPerDay + msPerDay"
proof -
  have e: "t div msPerDay * msPerDay + t mod msPerDay = t" by (rule div_mult_mod_eq)
  have b: "0 \<le> t mod msPerDay" "t mod msPerDay < msPerDay"
    by (simp_all add: msPerDay_def)
  show ?thesis unfolding Day_def using e b by linarith
qed

lemma Day_MakeDate:
  assumes "0 \<le> w" "w < msPerDay"
  shows "Day (MakeDate n w) = n" and "TimeWithinDay (MakeDate n w) = w"
proof -
  have e: "MakeDate n w = msPerDay * n + w" by (simp add: MakeDate_def)
  show "Day (MakeDate n w) = n"
    unfolding Day_def by (rule int_div_pos_eq [OF e]) (use assms in simp_all)
  show "TimeWithinDay (MakeDate n w) = w"
    unfolding TimeWithinDay_def by (rule int_mod_pos_eq [OF e]) (use assms in simp_all)
qed

lemma zoneOffset_Eastern_cases:
  "zoneOffset USEastern t = - 4 * msPerHour \<or> zoneOffset USEastern t = - 5 * msPerHour"
  by simp

lemma UTCofLocal_Eastern_cases:
  "UTCofLocal USEastern x = x + 4 * msPerHour \<or> UTCofLocal USEastern x = x + 5 * msPerHour"
  by simp

lemma UTCofLocal_days_mono:
  assumes "n2 < n1"
  shows "UTCofLocal z (MakeDate n2 0) < UTCofLocal z (MakeDate n1 0)"
proof -
  have d: "MakeDate n2 0 + msPerDay \<le> MakeDate n1 0"
    using assms by (simp add: MakeDate_def msPerDay_def)
  show ?thesis
  proof (cases z)
    case (FixedOffset k)
    then show ?thesis using d by (simp add: msPerDay_def)
  next
    case USEastern
    then show ?thesis
      using d UTCofLocal_Eastern_cases [of "MakeDate n2 0"]
        UTCofLocal_Eastern_cases [of "MakeDate n1 0"]
      by (auto simp: msPerDay_def msPerHour_def)
  qed
qed

lemma sundayOnOrAfter_range: "n \<le> sundayOnOrAfter n \<and> sundayOnOrAfter n \<le> n + 6"
proof -
  have "0 \<le> (7 - WeekDay n) mod 7" "(7 - WeekDay n) mod 7 < 7" by simp_all
  then show ?thesis unfolding sundayOnOrAfter_def by linarith
qed

lemma MakeDay_first_of_month:
  "MakeDay y 2 1 = DayFromYear y + 59 + (if InLeapYear y then 1 else 0)"
  "MakeDay y 10 1 = DayFromYear y + 304 + (if InLeapYear y then 1 else 0)"
  by (simp_all add: MakeDay_def MonthStart_simps)

lemma dst_window:
  obtains S E where
    "dstStartUTC y = MakeDate S (7 * msPerHour)" "dstEndUTC y = MakeDate E (6 * msPerHour)"
    "DayFromYear y + 66 \<le> S" "E \<le> DayFromYear y + 311"
proof -
  define S where "S = sundayOnOrAfter (MakeDay y 2 1) + 7"
  define E where "E = sundayOnOrAfter (MakeDay y 10 1)"
  have "dstStartUTC y = MakeDate S (7 * msPerHour)" "dstEndUTC y = MakeDate E (6 * msPerHour)"
    by (simp_all add: dstStartUTC_def dstEndUTC_def S_def E_def)
  moreover have "DayFromYear y + 66 \<le> S"
    using sundayOnOrAfter_range [of "MakeDay y 2 1"]
    by (simp add: S_def MakeDay_first_of_month split: if_splits)
  moreover have "E \<le> DayFromYear y + 311"
    using sundayOnOrAfter_range [of "MakeDay y 10 1"]
    by (simp add: E_def MakeDay_first_of_month split: if_splits)
  ultimately show thesis by (rule that)
qed

lemma DayFromYear_next_lower: "DayFromYear y + 365 \<le> DayFromYear (y + 1)"
  using DayFromYear_Suc [of y] by (simp add: DaysInYear_def)

lemma Eastern_no_gap:
  assumes "TimeWithinDay x < 2 * msPerHour \<or> 3 * msPerHour \<le> TimeWithinDay x"
  shows "LocalTime USEastern (UTCofLocal USEastern x) = x"
proof (cases "easternDST (x + 4 * msPerHour)")
  case True
  then show ?thesis by (simp add: LocalTime_def)
next
  case no4: False
  show ?thesis
  proof (cases "easternDST (x + 5 * msPerHour)")
    case False
    with no4 show ?thesis by (simp add: LocalTime_def)
  next
    case True
    define t5 where "t5 = x + 5 * msPerHour"
    define t4 where "t4 = x + 4 * msPerHour"
    define y where "y = YearFromDay (Day t5)"
    obtain S E where
      S: "dstStartUTC y = MakeDate S (7 * msPerHour)" and
      E: "dstEndUTC y = MakeDate E (6 * msPerHour)" and
      SE: "DayFromYear y + 66 \<le> S" "E \<le> DayFromYear y + 311"
      by (rule dst_window)
    from True have in5: "MakeDate S (7 * msPerHour) \<le> t5" "t5 < MakeDate E (6 * msPerHour)"
      by (simp_all add: easternDST_def Let_def t5_def [symmetric] y_def [symmetric] S E)
    have b5: "Day t5 * msPerDay \<le> t5" "t5 < Day t5 * msPerDay + msPerDay"
      using Day_bounds [of t5] by simp_all
    have b4: "Day t4 * msPerDay \<le> t4" "t4 < Day t4 * msPerDay + msPerDay"
      using Day_bounds [of t4] by simp_all
    have t45: "t4 + msPerHour = t5" by (simp add: t4_def t5_def)
    have d5: "S \<le> Day t5" "Day t5 \<le> E"
      using in5 b5 by (simp_all add: MakeDate_def msPerDay_def msPerHour_def)
    have d4: "Day t5 - 1 \<le> Day t4" "Day t4 \<le> Day t5"
      using b4 b5 t45 by (simp_all add: msPerDay_def msPerHour_def)
    have y4: "YearFromDay (Day t4) = y"
    proof (rule YearFromDay_unique)
      show "DayFromYear y \<le> Day t4" using d4 d5 SE by linarith
      show "Day t4 < DayFromYear (y + 1)"
        using d4 d5 SE DayFromYear_next_lower [of y] by linarith
    qed
    from no4 have "\<not> (MakeDate S (7 * msPerHour) \<le> t4 \<and> t4 < MakeDate E (6 * msPerHour))"
      by (simp add: easternDST_def Let_def t4_def [symmetric] y4 S E)
    with in5 t45 have lt: "t4 < MakeDate S (7 * msPerHour)"
      by (simp add: msPerHour_def) 
    define w where "w = x - S * msPerDay"
    have w: "2 * msPerHour \<le> w" "w < 3 * msPerHour"
      using lt in5 by (simp_all add: w_def t4_def t5_def MakeDate_def)
    have e: "x = msPerDay * S + w" by (simp add: w_def)
    have "TimeWithinDay x = w"
      unfolding TimeWithinDay_def
      by (rule int_mod_pos_eq [OF e]) (use w in \<open>simp_all add: msPerHour_def msPerDay_def\<close>)
    with w assms show ?thesis by simp
  qed
qed

lemma LocalTime_UTCofLocal:
  assumes "TimeWithinDay x < 2 * msPerHour \<or> 3 * msPerHour \<le> TimeWithinDay x"
  shows "LocalTime z (UTCofLocal z x) = x"
proof (cases z)
  case (FixedOffset k)
  then show ?thesis by (simp add: LocalTime_def)
next
  case USEastern
  then show ?thesis using Eastern_no_gap [OF assms] by simp
qed

lemma UTCofLocal_days_le_iff:
  "UTCofLocal z (MakeDate a 0) \<le> UTCofLocal z (MakeDate b 0) \<longleftrightarrow> a \<le> b"
proof
  assume l: "UTCofLocal z (MakeDate a 0) \<le> UTCofLocal z (MakeDate b 0)"
  show "a \<le> b"
  proof (rule ccontr)
    assume "\<not> a \<le> b"
    then have "b < a" by simp
    from UTCofLocal_days_mono [OF this, of z] l show False by simp
  qed
next
  assume "a \<le> b"
  then consider "a = b" | "a < b" by linarith
  then show "UTCofLocal z (MakeDate a 0) \<le> UTCofLocal z (MakeDate b 0)"
  proof cases
    case 1
    then show ?thesis by simp
  next
    case 2
    from UTCofLocal_days_mono [OF this, of z] show ?thesis by simp
  qed
qed

lemma noon_day:
  assumes "noonWithinUTCDay z"
  shows "Day (UTCofLocal z (MakeDate n (MakeTime 12 0 0))) = n"
proof (cases z)
  case (FixedOffset k)
  with assms have k: "- 720 < k" "k \<le> 720" by (simp_all add: noonWithinUTCDay_def)
  have e: "UTCofLocal z (MakeDate n (MakeTime 12 0 0)) = MakeDate n (MakeTime 12 0 0 - k * msPerMinute)"
    by (simp add: FixedOffset MakeDate_def)
  show ?thesis unfolding e
    by (rule Day_MakeDate) (use k in \<open>simp_all add: MakeTime_def msPerHour_def msPerMinute_def msPerDay_def\<close>)
next
  case USEastern
  have "UTCofLocal z (MakeDate n (MakeTime 12 0 0)) = MakeDate n (MakeTime 16 0 0) \<or>
        UTCofLocal z (MakeDate n (MakeTime 12 0 0)) = MakeDate n (MakeTime 17 0 0)"
    using UTCofLocal_Eastern_cases [of "MakeDate n (MakeTime 12 0 0)"]
    by (auto simp: USEastern MakeDate_def MakeTime_def msPerHour_def msPerMinute_def)
  moreover have "Day (MakeDate n (MakeTime 16 0 0)) = n" "Day (MakeDate n (MakeTime 17 0 0)) = n"
    by (rule Day_MakeDate; simp add: MakeTime_def msPerHour_def msPerMinute_def msPerDay_def)+
  ultimately show ?thesis by auto
qed

section \<open>Lemmas on the dashboard filter\<close>

lemma dateOnly_eq:
  assumes "\<not> (0 \<le> getFullYear z t \<and> getFullYear z t \<le> 99)"
  shows "dateOnly z t = UTCofLocal z (MakeDate (Day (LocalTime z t)) 0)"
  using assms
  by (auto simp: dateOnly_def newDateYMD_def getFullYear_def getMonth_def getDate_def
      MakeDay_fields Let_def)

lemma dayKey_not_empty: "dayKey n \<noteq> []"
  by (simp add: dayKey_def pad4_def)

lemma boundDateOnly_dayKey:
  assumes "keyedDay n" and "0 \<le> MakeTime h mi s" and "MakeTime h mi s < msPerDay"
    and "MakeTime h mi s < 2 * msPerHour \<or> 3 * msPerHour \<le> MakeTime h mi s"
  shows "boundDateOnly z (dayKey n) h mi s = Some (Some (UTCofLocal z (MakeDate n 0)))"
proof -
  define w where "w = MakeTime h mi s"
  define u where "u = UTCofLocal z (MakeDate n w)"
  have yr: "100 \<le> YearFromDay n" "YearFromDay n \<le> 9999"
    using assms(1) by (simp_all add: keyedDay_def)
  have nd: "newDateLocal z (dayKey n) h mi s = Some u"
    using yr by (simp add: newDateLocal_dayKey u_def w_def)
  have tw: "TimeWithinDay (MakeDate n w) = w" and dy: "Day (MakeDate n w) = n"
    using Day_MakeDate [of w n] assms(2,3) by (simp_all add: w_def)
  have lt: "LocalTime z u = MakeDate n w"
    unfolding u_def by (rule LocalTime_UTCofLocal) (use assms(4) tw in \<open>simp add: w_def\<close>)
  have "getFullYear z u = YearFromDay n" by (simp add: getFullYear_def lt dy)
  then have "dateOnly z u = UTCofLocal z (MakeDate n 0)"
    using yr dateOnly_eq [of z u] by (simp add: lt dy)
  then show ?thesis
    by (simp add: boundDateOnly_def dayKey_not_empty nd)
qed

lemma bounds_of_dayKeys:
  assumes "keyedDay n"
  shows "boundDateOnly z (dayKey n) 0 0 0 = Some (Some (UTCofLocal z (MakeDate n 0)))"
    and "boundDateOnly z (dayKey n) 23 59 59 = Some (Some (UTCofLocal z (MakeDate n 0)))"
  by (rule boundDateOnly_dayKey [OF assms];
      simp add: MakeTime_def msPerHour_def msPerMinute_def msPerDay_def)+


lemma getETDateString_dayKey:
  assumes "1000 \<le> YearFromDay (Day (LocalTime USEastern t))"
    "YearFromDay (Day (LocalTime USEastern t)) \<le> 9999"
  shows "getETDateString t = dayKey (Day (LocalTime USEastern t))"
proof -
  define y where "y = YearFromDay (Day (LocalTime USEastern t))"
  have "1000 \<le> nat y" "nat y < 10000" using assms unfolding y_def by arith+
  then have "decimal (nat y) = pad4 (nat y)" by (rule decimal_four_digits)
  moreover have "1 \<le> y" using assms by (simp add: y_def)
  ultimately show ?thesis
    by (simp add: getETDateString_def dayKey_def yearNumeric_def Let_def y_def)
qed

lemma includes_js_empty: "includes_js s []"
  by (cases s) simp_all

lemma Eastern_early_morning_day:
  "Day (LocalTime USEastern (MakeDate D (MakeTime 3 30 0))) = D - 1"
proof -
  define t where "t = MakeDate D (MakeTime 3 30 0)"
  have "LocalTime USEastern t = MakeDate (D - 1) (MakeTime 23 30 0) \<or>
        LocalTime USEastern t = MakeDate (D - 1) (MakeTime 22 30 0)"
    using zoneOffset_Eastern_cases [of t]
    by (auto simp: LocalTime_def t_def MakeDate_def MakeTime_def msPerHour_def msPerMinute_def
        msPerDay_def)
  moreover have "Day (MakeDate (D - 1) (MakeTime 23 30 0)) = D - 1"
    "Day (MakeDate (D - 1) (MakeTime 22 30 0)) = D - 1"
    by (rule Day_MakeDate; simp add: MakeTime_def msPerHour_def msPerMinute_def msPerDay_def)+
  ultimately show ?thesis unfolding t_def by auto
qed

section \<open>Lemmas on rounding\<close>

lemma bitLength_bounds:
  "0 < n \<Longrightarrow> 2 ^ nat (bitLength n - 1) \<le> n \<and> n < 2 ^ nat (bitLength n) \<and> 1 \<le> bitLength n"
proof (induction n rule: bitLength.induct)
  case (1 n)
  show ?case
  proof (cases "n = 1")
    case True
    have "bitLength 1 = 1"
      by (simp add: bitLength.simps [of 1] bitLength.simps [of 0])
    with True show ?thesis by simp
  next
    case False
    with "1.prems" have pos: "0 < n div 2" by simp
    define b where "b = bitLength (n div 2)"
    have bl: "bitLength n = 1 + b"
      using "1.prems" by (simp add: bitLength.simps [of n] b_def)
    from "1.IH" pos "1.prems" have ih: "2 ^ nat (b - 1) \<le> n div 2" "n div 2 < 2 ^ nat b" "1 \<le> b"
      by (simp_all add: b_def)
    have e1: "(2::int) ^ nat b = 2 * 2 ^ nat (b - 1)"
      using ih(3) by (metis Suc_nat_eq_nat_zadd1 add.commute diff_add_cancel diff_ge_0_iff_ge power_Suc)
    have e2: "(2::int) ^ nat (1 + b) = 2 * 2 ^ nat b"
      using ih(3) by (simp add: nat_add_distrib)
    have "2 ^ nat b \<le> n" using e1 ih(1) by linarith
    moreover have "n < 2 ^ nat (1 + b)" using e2 ih(2) by linarith
    ultimately show ?thesis using bl ih(3) by simp
  qed
qed

lemma pow2_pos: "0 < pow2 e"
  by (simp add: pow2_def)

lemma pow2_add: "pow2 (a + b) = pow2 a * pow2 b"
  by (simp add: pow2_def power_int_add)

lemma pow2_diff: "pow2 (a - b) = pow2 a / pow2 b"
  by (simp add: pow2_def power_int_diff)

lemma pow2_nat: "0 \<le> e \<Longrightarrow> pow2 e = of_int (2 ^ nat e)"
  by (simp add: pow2_def power_int_def)

lemma pow2_mono: "a \<le> b \<Longrightarrow> pow2 a \<le> pow2 b"
  by (simp add: pow2_def power_int_increasing)

lemma pow2_Ints: "0 \<le> e \<Longrightarrow> pow2 e \<in> \<int>"
  by (simp add: pow2_nat)

lemma floorLog2_le:
  assumes "0 < x"
  shows "pow2 (floorLog2 x) \<le> x"
proof -
  obtain p q where pq: "quotient_of x = (p, q)" by (cases "quotient_of x")
  have q: "0 < q" using pq by (rule quotient_of_denom_pos)
  have x: "x = of_int p / of_int q" using pq by (rule quotient_of_div)
  have p: "0 < p" using assms q x by (simp add: zero_less_divide_iff)
  define d where "d = bitLength p - bitLength q"
  have bp: "2 ^ nat (bitLength p - 1) \<le> p" "1 \<le> bitLength p" using bitLength_bounds [OF p] by simp_all
  have bq: "q < 2 ^ nat (bitLength q)" "1 \<le> bitLength q" using bitLength_bounds [OF q] by simp_all
  have "pow2 (d - 1) = pow2 (bitLength p - 1) / pow2 (bitLength q)"
    by (simp add: d_def pow2_diff [symmetric] algebra_simps)
  also have "\<dots> = of_int (2 ^ nat (bitLength p - 1)) / of_int (2 ^ nat (bitLength q))"
    using bp(2) bq(2) by (simp add: pow2_nat)
  also have "\<dots> \<le> of_int p / of_int q"
  proof -
    have 1: "(0::rat) \<le> of_int p" using p by simp
    have 2: "(of_int (2 ^ nat (bitLength p - 1))::rat) \<le> of_int p"
      using bp(1) by (simp only: of_int_le_iff)
    have 3: "(0::rat) < of_int q" using q by simp
    have 4: "(of_int q::rat) \<le> of_int (2 ^ nat (bitLength q))"
      using bq(1) by (simp only: of_int_le_iff)
    show ?thesis by (rule frac_le [OF 1 2 3 4])
  qed
  finally have low: "pow2 (d - 1) \<le> x" using x by simp
  show ?thesis
    using low by (simp add: floorLog2_def pq d_def [symmetric] Let_def)
qed

lemma floorLog2_less:
  assumes "0 < x"
  shows "x < pow2 (floorLog2 x + 1)"
proof -
  obtain p q where pq: "quotient_of x = (p, q)" by (cases "quotient_of x")
  have q: "0 < q" using pq by (rule quotient_of_denom_pos)
  have x: "x = of_int p / of_int q" using pq by (rule quotient_of_div)
  have p: "0 < p" using assms q x by (simp add: zero_less_divide_iff)
  define d where "d = bitLength p - bitLength q"
  have bp: "p < 2 ^ nat (bitLength p)" "1 \<le> bitLength p" using bitLength_bounds [OF p] by simp_all
  have bq: "2 ^ nat (bitLength q - 1) \<le> q" "1 \<le> bitLength q" using bitLength_bounds [OF q] by simp_all
  have 1: "(0::rat) \<le> of_int (2 ^ nat (bitLength p))" by simp
  have 2: "(of_int p::rat) < of_int (2 ^ nat (bitLength p))"
    using bp(1) by (simp only: of_int_less_iff)
  have 3: "(0::rat) < of_int (2 ^ nat (bitLength q - 1))" by simp
  have 4: "(of_int (2 ^ nat (bitLength q - 1))::rat) \<le> of_int q"
    using bq(1) by (simp only: of_int_le_iff)
  have "of_int p / of_int q < (of_int (2 ^ nat (bitLength p)) :: rat) / of_int (2 ^ nat (bitLength q - 1))"
    by (rule frac_less [OF _ 2 3 4]) (use p in simp)
  also have "\<dots> = pow2 (bitLength p) / pow2 (bitLength q - 1)"
    using bp(2) bq(2) by (simp add: pow2_nat)
  also have "\<dots> = pow2 (d + 1)"
    by (simp add: d_def pow2_diff [symmetric] algebra_simps)
  finally have up: "x < pow2 (d + 1)" using x by simp
  show ?thesis
    using up by (auto simp: floorLog2_def pq d_def [symmetric] Let_def not_le)
qed

lemma roundHalfEven_error: "\<bar>of_int (roundHalfEven y) - y\<bar> \<le> 1 / 2"
proof -
  have "0 \<le> y - of_int \<lfloor>y\<rfloor>" "y - of_int \<lfloor>y\<rfloor> < 1" by linarith+
  then show ?thesis
    by (auto simp: roundHalfEven_def Let_def abs_le_iff)
qed

lemma roundHalfEven_of_int: "roundHalfEven (of_int k) = k"
  by (simp add: roundHalfEven_def)

lemma roundHalfEven_Ints: "y \<in> \<int> \<Longrightarrow> of_int (roundHalfEven y) = y"
  by (auto simp: Ints_def roundHalfEven_of_int)

lemma roundFinite_zero: "roundFinite 0 = 0"
  by (simp add: roundFinite_def)

lemma roundFinite_form:
  assumes "x \<noteq> 0"
  obtains e m where "- 1074 \<le> e" "floorLog2 \<bar>x\<bar> - 52 \<le> e"
    "e = - 1074 \<or> e = floorLog2 \<bar>x\<bar> - 52"
    "m = roundHalfEven (\<bar>x\<bar> / pow2 e)"
    "roundFinite x = sgn x * (of_int m * pow2 e)"
proof -
  define e where "e = max (floorLog2 \<bar>x\<bar> - 52) (- 1074)"
  define m where "m = roundHalfEven (\<bar>x\<bar> / pow2 e)"
  have "roundFinite x = sgn x * (of_int m * pow2 e)"
    using assms by (simp add: roundFinite_def e_def m_def Let_def)
  moreover have "- 1074 \<le> e" "floorLog2 \<bar>x\<bar> - 52 \<le> e" "e = - 1074 \<or> e = floorLog2 \<bar>x\<bar> - 52"
    by (auto simp: e_def max_def)
  ultimately show ?thesis using that m_def by blast
qed

lemma roundFinite_grid: "roundFinite x * pow2 1074 \<in> \<int>"
proof (cases "x = 0")
  case True
  then show ?thesis by (simp add: roundFinite_zero)
next
  case False
  then obtain e m where em: "- 1074 \<le> e" "roundFinite x = sgn x * (of_int m * pow2 e)"
    by (rule roundFinite_form)
  have "roundFinite x * pow2 1074 = sgn x * of_int m * pow2 (e + 1074)"
    by (simp add: em(2) pow2_add)
  moreover have "sgn x \<in> \<int>"
    by (cases "0 < x") (use False in \<open>auto simp: sgn_if\<close>)
  moreover have "pow2 (e + 1074) \<in> \<int>"
    using em(1) by (intro pow2_Ints) simp
  ultimately show ?thesis by simp
qed

lemma roundFinite_error:
  assumes "pow2 (- 1022) \<le> \<bar>x\<bar> \<or> x * pow2 1074 \<in> \<int>"
  shows "\<bar>roundFinite x - x\<bar> \<le> \<bar>x\<bar> * unitRoundoff"
proof (cases "x = 0")
  case True
  then show ?thesis by (simp add: roundFinite_zero)
next
  case False
  then obtain e m where em: "- 1074 \<le> e" "floorLog2 \<bar>x\<bar> - 52 \<le> e"
    "e = - 1074 \<or> e = floorLog2 \<bar>x\<bar> - 52"
    "m = roundHalfEven (\<bar>x\<bar> / pow2 e)"
    "roundFinite x = sgn x * (of_int m * pow2 e)"
    by (rule roundFinite_form)
  define y where "y = \<bar>x\<bar> / pow2 e"
  have xy: "\<bar>x\<bar> = y * pow2 e" using pow2_pos [of e] by (simp add: y_def)
  have "roundFinite x - x = sgn x * (of_int m * pow2 e - \<bar>x\<bar>)"
    by (simp add: em(5) algebra_simps sgn_if abs_if)
  then have "\<bar>roundFinite x - x\<bar> = \<bar>of_int m * pow2 e - \<bar>x\<bar>\<bar>"
    using False by (simp add: abs_mult abs_sgn_eq)
  also have "\<dots> = \<bar>(of_int m - y) * pow2 e\<bar>"
    by (simp add: xy algebra_simps)
  also have "\<dots> = \<bar>of_int m - y\<bar> * pow2 e"
    using pow2_pos [of e] by (simp add: abs_mult)
  finally have err: "\<bar>roundFinite x - x\<bar> = \<bar>of_int m - y\<bar> * pow2 e" .
  have p52: "pow2 52 = 2 ^ 52" by (simp add: pow2_def)
  show ?thesis
  proof (cases "pow2 e * pow2 52 \<le> \<bar>x\<bar>")
    case True
    have "\<bar>of_int m - y\<bar> \<le> 1 / 2" unfolding em(4) y_def by (rule roundHalfEven_error)
    then have "\<bar>of_int m - y\<bar> * pow2 e \<le> 1 / 2 * pow2 e"
      using pow2_pos [of e] by (simp add: mult_right_mono)
    also have "\<dots> \<le> \<bar>x\<bar> * unitRoundoff"
      using True by (simp add: unitRoundoff_def p52 field_simps)
    finally show ?thesis using err by simp
  next
    case no: False
    have low: "pow2 (floorLog2 \<bar>x\<bar>) \<le> \<bar>x\<bar>" using False by (intro floorLog2_le) simp
    have e: "e = - 1074"
    proof (rule ccontr)
      assume "e \<noteq> - 1074"
      with em(3) have "e = floorLog2 \<bar>x\<bar> - 52" by simp
      then have "pow2 e * pow2 52 = pow2 (floorLog2 \<bar>x\<bar>)" by (simp add: pow2_add [symmetric])
      with low no show False by simp
    qed
    have "pow2 e * pow2 52 = pow2 (- 1022)" by (simp add: e pow2_add [symmetric])
    with no assms have "x * pow2 1074 \<in> \<int>" by auto
    then have "\<bar>x * pow2 1074\<bar> \<in> \<int>" by simp
    moreover have "y = \<bar>x * pow2 1074\<bar>"
      using pow2_pos [of 1074] by (simp add: y_def e abs_mult pow2_def power_int_minus field_simps)
    ultimately have "of_int m = y" unfolding em(4) y_def [symmetric] by (simp add: roundHalfEven_Ints)
    then show ?thesis using err by (simp add: unitRoundoff_def)
  qed
qed

lemma roundFinite_abs:
  assumes "pow2 (- 1022) \<le> \<bar>x\<bar> \<or> x * pow2 1074 \<in> \<int>"
  shows "\<bar>roundFinite x\<bar> \<le> \<bar>x\<bar> * (1 + unitRoundoff)"
proof -
  have "\<bar>roundFinite x\<bar> \<le> \<bar>roundFinite x - x\<bar> + \<bar>x\<bar>" by linarith
  with roundFinite_error [OF assms] show ?thesis by (simp add: algebra_simps)
qed

lemma roundDouble_finite:
  assumes "\<bar>roundFinite x\<bar> < pow2 1024"
  shows "roundDouble x = Finite (roundFinite x)"
proof (cases "roundFinite x = 0")
  case True
  then show ?thesis by (simp add: roundDouble_def)
next
  case False
  have "floorLog2 \<bar>roundFinite x\<bar> < 1024"
  proof (rule ccontr)
    assume "\<not> floorLog2 \<bar>roundFinite x\<bar> < 1024"
    then have "pow2 1024 \<le> pow2 (floorLog2 \<bar>roundFinite x\<bar>)" by (intro pow2_mono) simp
    also have "\<dots> \<le> \<bar>roundFinite x\<bar>" using False by (intro floorLog2_le) simp
    finally show False using assms by simp
  qed
  then show ?thesis by (simp add: roundDouble_def)
qed

lemma roundDouble_overflow:
  assumes "pow2 1024 \<le> \<bar>roundFinite x\<bar>"
  shows "roundDouble x = (if 0 < roundFinite x then PosInf else NegInf)"
proof -
  have pos: "0 < \<bar>roundFinite x\<bar>" using assms pow2_pos [of 1024] by linarith
  have "pow2 1024 < pow2 (floorLog2 \<bar>roundFinite x\<bar> + 1)"
    using assms floorLog2_less [OF pos] by linarith
  then have "\<not> floorLog2 \<bar>roundFinite x\<bar> + 1 \<le> 1024"
    using pow2_mono [of "floorLog2 \<bar>roundFinite x\<bar> + 1" 1024] by linarith
  then have "\<not> floorLog2 \<bar>roundFinite x\<bar> < 1024" by simp
  moreover have "roundFinite x \<noteq> 0" using pos by simp
  ultimately show ?thesis by (simp add: roundDouble_def)
qed

lemma fadd_finite:
  assumes "x * pow2 1074 \<in> \<int>" and "y * pow2 1074 \<in> \<int>"
    and "\<bar>x + y\<bar> * (1 + unitRoundoff) < pow2 1024"
  shows "fadd (Finite x) (Finite y) = Finite (roundFinite (x + y))"
    and "\<bar>roundFinite (x + y) - (x + y)\<bar> \<le> \<bar>x + y\<bar> * unitRoundoff"
proof -
  have g: "pow2 (- 1022) \<le> \<bar>x + y\<bar> \<or> (x + y) * pow2 1074 \<in> \<int>"
    using assms(1,2) by (simp add: distrib_right)
  show "\<bar>roundFinite (x + y) - (x + y)\<bar> \<le> \<bar>x + y\<bar> * unitRoundoff"
    using g by (rule roundFinite_error)
  have "\<bar>roundFinite (x + y)\<bar> < pow2 1024"
    using roundFinite_abs [OF g] assms(3) by simp
  then show "fadd (Finite x) (Finite y) = Finite (roundFinite (x + y))"
    by (simp add: roundDouble_finite)
qed

text \<open>
  Known sums: \<open>0.1 + 0.2\<close> is \<open>0.30000000000000004\<close>, the number after \<open>0.3\<close>; an
  integer beyond \<open>2 ^ 53\<close> is rounded to an even one; whole amounts add exactly.
\<close>

lemma binary64_examples:
  "fadd (roundDouble (1 / 10)) (roundDouble (2 / 10)) = Finite (5404319552844596 / 2 ^ 54)"
  "roundDouble (3 / 10) = Finite (5404319552844595 / 2 ^ 54)"
  "roundDouble (2 ^ 53 + 1) = Finite (2 ^ 53)"
  "fadd (roundDouble (- 20)) (roundDouble 130) = Finite 110"
  by code_simp+

lemma unitRoundoff_pos: "0 < unitRoundoff"
  by (simp add: unitRoundoff_def)

lemma growth_ge_one: "1 \<le> (1 + unitRoundoff) ^ k"
  using unitRoundoff_pos by (intro one_le_power) simp

lemma growth_mono: "k \<le> n \<Longrightarrow> (1 + unitRoundoff) ^ k \<le> (1 + unitRoundoff) ^ n"
  using unitRoundoff_pos by (intro power_increasing) simp_all

lemma floating_sum_error:
  assumes "\<forall>x \<in> set xs. x * pow2 1074 \<in> \<int>" and "s * pow2 1074 \<in> \<int>"
    and "(1 + unitRoundoff) ^ length xs * (\<bar>s\<bar> + (\<Sum>x\<leftarrow>xs. \<bar>x\<bar>)) < pow2 1024"
  shows "\<exists>r. foldl fadd (Finite s) (map Finite xs) = Finite r \<and> r * pow2 1074 \<in> \<int> \<and>
             \<bar>r - (s + sum_list xs)\<bar> \<le>
               ((1 + unitRoundoff) ^ length xs - 1) * (\<bar>s\<bar> + (\<Sum>x\<leftarrow>xs. \<bar>x\<bar>))"
  using assms
proof (induction xs rule: rev_induct)
  case Nil
  then show ?case by simp
next
  case (snoc a xs)
  define u where "u = unitRoundoff"
  define G where "G = (1 + u) ^ length xs"
  define A where "A = \<bar>s\<bar> + (\<Sum>x\<leftarrow>xs. \<bar>x\<bar>)"
  define B where "B = A + \<bar>a\<bar>"
  define S where "S = s + sum_list xs"
  have u: "0 < u" by (simp add: u_def unitRoundoff_pos)
  have G: "1 \<le> G" unfolding G_def u_def by (rule growth_ge_one)
  have "0 \<le> (\<Sum>x\<leftarrow>xs. \<bar>x\<bar>)" by (rule sum_list_nonneg) auto
  then have A: "0 \<le> A" unfolding A_def by simp
  have AB: "A \<le> B" "0 \<le> B" using A by (simp_all add: B_def)
  have SA: "\<bar>S\<bar> \<le> A"
    unfolding S_def A_def using sum_list_abs [of xs] by linarith
  have big: "G * (1 + u) * B < pow2 1024"
    using snoc.prems(3) by (simp add: G_def u_def A_def B_def algebra_simps)
  have "G * A \<le> G * (1 + u) * B"
  proof -
    have "G * A \<le> G * B" using AB(1) G by (intro mult_left_mono) simp_all
    also have "\<dots> = G * B * 1" by simp
    also have "\<dots> \<le> G * B * (1 + u)"
      using u G AB(2) by (intro mult_left_mono) simp_all
    finally show ?thesis by (simp add: mult_ac)
  qed
  with big have "(1 + unitRoundoff) ^ length xs * (\<bar>s\<bar> + (\<Sum>x\<leftarrow>xs. \<bar>x\<bar>)) < pow2 1024"
    by (simp add: G_def u_def A_def)
  with snoc.IH snoc.prems(1,2) obtain r where
    r: "foldl fadd (Finite s) (map Finite xs) = Finite r" "r * pow2 1074 \<in> \<int>"
       "\<bar>r - S\<bar> \<le> (G - 1) * A"
    by (auto simp: G_def u_def A_def S_def)
  have ra: "\<bar>r\<bar> \<le> G * A"
  proof -
    have "\<bar>r\<bar> \<le> \<bar>r - S\<bar> + \<bar>S\<bar>" by linarith
    also have "\<dots> \<le> (G - 1) * A + A" using r(3) SA by linarith
    finally show ?thesis by (simp add: algebra_simps)
  qed
  have rb: "\<bar>r + a\<bar> \<le> G * B"
  proof -
    have "\<bar>a\<bar> * 1 \<le> \<bar>a\<bar> * G" using G by (intro mult_left_mono) simp_all
    then have "G * A + \<bar>a\<bar> \<le> G * B" by (simp add: B_def algebra_simps)
    moreover have "\<bar>r + a\<bar> \<le> \<bar>r\<bar> + \<bar>a\<bar>" by linarith
    ultimately show ?thesis using ra by linarith
  qed
  have "\<bar>r + a\<bar> * (1 + u) \<le> G * B * (1 + u)"
    using rb u by (intro mult_right_mono) simp_all
  with big have small: "\<bar>r + a\<bar> * (1 + unitRoundoff) < pow2 1024"
    by (simp add: u_def mult_ac)
  have ga: "a * pow2 1074 \<in> \<int>" using snoc.prems(1) by simp
  note step = fadd_finite [OF r(2) ga small]
  define t where "t = roundFinite (r + a)"
  have "foldl fadd (Finite s) (map Finite (xs @ [a])) =
        fadd (foldl fadd (Finite s) (map Finite xs)) (Finite a)"
    by simp
  then have t1: "foldl fadd (Finite s) (map Finite (xs @ [a])) = Finite t"
    by (simp only: r(1) step(1) t_def)
  have t2: "t * pow2 1074 \<in> \<int>" unfolding t_def by (rule roundFinite_grid)
  have "\<bar>t - (S + a)\<bar> \<le> \<bar>t - (r + a)\<bar> + \<bar>r - S\<bar>" by linarith
  also have "\<dots> \<le> \<bar>r + a\<bar> * u + (G - 1) * A"
    using step(2) r(3) by (simp add: t_def u_def)
  also have "\<dots> \<le> G * B * u + (G - 1) * B"
  proof -
    have "\<bar>r + a\<bar> * u \<le> G * B * u" using rb u by (intro mult_right_mono) simp_all
    moreover have "(G - 1) * A \<le> (G - 1) * B" using AB(1) G by (intro mult_left_mono) simp_all
    ultimately show ?thesis by linarith
  qed
  also have "\<dots> = (G * (1 + u) - 1) * B" by (simp add: algebra_simps)
  finally have t3: "\<bar>t - (s + sum_list (xs @ [a]))\<bar> \<le>
      ((1 + unitRoundoff) ^ length (xs @ [a]) - 1) * (\<bar>s\<bar> + (\<Sum>x\<leftarrow>xs @ [a]. \<bar>x\<bar>))"
    by (simp add: S_def G_def u_def A_def B_def algebra_simps)
  from t1 t2 t3 show ?case by blast
qed

lemma growth_linear:
  "2 * of_nat k * unitRoundoff \<le> 1 \<Longrightarrow> (1 + unitRoundoff) ^ k \<le> 1 + 2 * of_nat k * unitRoundoff"
proof (induction k)
  case 0
  then show ?case by simp
next
  case (Suc k)
  define u where "u = unitRoundoff"
  define K :: rat where "K = of_nat k"
  have u: "0 < u" by (simp add: u_def unitRoundoff_pos)
  have K: "0 \<le> K" by (simp add: K_def)
  from Suc.prems have p: "2 * (K + 1) * u \<le> 1" by (simp add: u_def K_def algebra_simps)
  have "2 * K * u \<le> 2 * (K + 1) * u" using u by (simp add: algebra_simps)
  with p have q: "2 * K * u \<le> 1" by linarith
  with Suc.IH have ih: "(1 + u) ^ k \<le> 1 + 2 * K * u" by (simp add: u_def K_def)
  have "(1 + u) ^ Suc k = (1 + u) ^ k * (1 + u)" by simp
  also have "\<dots> \<le> (1 + 2 * K * u) * (1 + u)"
    using ih u by (intro mult_right_mono) simp_all
  also have "\<dots> = 1 + 2 * K * u + u + (2 * K * u) * u" by (simp add: algebra_simps)
  also have "\<dots> \<le> 1 + 2 * K * u + u + 1 * u"
    using q u by (intro add_left_mono mult_right_mono) simp_all
  also have "\<dots> = 1 + 2 * (K + 1) * u" by (simp add: algebra_simps)
  finally show ?case by (simp add: u_def K_def algebra_simps)
qed

section \<open>Lemmas on the summaries\<close>

lemma reportSummaryStep_eq: "reportSummaryStep = summaryReducer"
  by (intro ext) (simp add: reportSummaryStep_def summaryReducer_def)

lemma reportSummary_eq: "reportSummary ps = SummaryCards_summary ps"
  by (simp add: reportSummary_def SummaryCards_summary_def reportSummaryStep_eq)

lemma total_foldl:
  "total (foldl summaryReducer acc ps) =
     foldl fadd (total acc) (map (\<lambda>p. roundDouble (amount_paid p)) ps)"
  by (induction ps arbitrary: acc) (simp_all add: summaryReducer_def Let_def)

lemma cash_foldl:
  "cash (foldl summaryReducer acc ps) =
     foldl fadd (cash acc)
       (map (\<lambda>p. roundDouble (amount_paid p)) (filter (\<lambda>p. payment_method p = ''Cash'') ps))"
  by (induction ps arbitrary: acc) (simp_all add: summaryReducer_def Let_def)

lemma zelle_foldl:
  "zelle (foldl summaryReducer acc ps) =
     foldl fadd (zelle acc)
       (map (\<lambda>p. roundDouble (amount_paid p)) (filter (\<lambda>p. payment_method p = ''Zelle'') ps))"
  by (induction ps arbitrary: acc) (simp_all add: summaryReducer_def Let_def)

lemma check_foldl:
  "check (foldl summaryReducer acc ps) =
     foldl fadd (check acc)
       (map (\<lambda>p. roundDouble (amount_paid p)) (filter (\<lambda>p. payment_method p = ''Check'') ps))"
  by (induction ps arbitrary: acc) (simp_all add: summaryReducer_def Let_def)

lemma bookerCC_foldl:
  "bookerCC (foldl summaryReducer acc ps) =
     foldl fadd (bookerCC acc)
       (map (\<lambda>p. roundDouble (amount_paid p)) (filter (\<lambda>p. payment_method p = ''Booker CC'') ps))"
  by (induction ps arbitrary: acc) (simp_all add: summaryReducer_def Let_def)

lemma pow2_1024_large: "2 ^ 61 \<le> pow2 1024"
proof -
  have "pow2 61 \<le> pow2 1024" by (rule pow2_mono) simp
  moreover have "pow2 61 = 2 ^ 61" by (simp add: pow2_def)
  ultimately show ?thesis by simp
qed

lemma pow2_1022_small: "pow2 (- 1022) \<le> 1 / 100"
proof -
  have "pow2 (- 1022) \<le> pow2 (- 7)" by (rule pow2_mono) simp
  moreover have "pow2 (- 7) = 1 / 2 ^ 7" by (simp add: pow2_def power_int_minus field_simps)
  ultimately show ?thesis by simp
qed

lemma numeric_10_2_cases:
  assumes "amount_paid_numeric_10_2 a"
  shows "a = 0 \<or> 1 / 100 \<le> \<bar>a\<bar>"
proof (cases "a = 0")
  case True
  then show ?thesis by simp
next
  case False
  define k where "k = \<lfloor>a * 100\<rfloor>"
  have k: "of_int k = a * 100" using assms by (simp add: amount_paid_numeric_10_2_def k_def)
  with False have "k \<noteq> 0" by auto
  then have "1 \<le> \<bar>k\<bar>" by simp
  then have "(1::rat) \<le> \<bar>of_int k\<bar>" by (metis of_int_1_le_iff of_int_abs)
  then have "1 \<le> \<bar>a\<bar> * 100" by (simp add: k abs_mult)
  then show ?thesis by simp
qed

lemma growth_small:
  assumes "k \<le> 2 ^ 33"
  shows "(1 + unitRoundoff) ^ k \<le> 1 + 2 * of_nat k * unitRoundoff" and "(1 + unitRoundoff) ^ k \<le> 2"
proof -
  have "(of_nat k :: rat) \<le> of_nat (2 ^ 33)" using assms by (simp only: of_nat_le_iff)
  then have k: "(of_nat k :: rat) \<le> 2 ^ 33" by simp
  then have s: "2 * of_nat k * unitRoundoff \<le> 1" by (simp add: unitRoundoff_def field_simps)
  from growth_linear [OF s] show "(1 + unitRoundoff) ^ k \<le> 1 + 2 * of_nat k * unitRoundoff" .
  with s show "(1 + unitRoundoff) ^ k \<le> 2" by linarith
qed

lemma amount_double:
  assumes "amount_paid_numeric_10_2 a"
  shows "roundDouble a = Finite (roundFinite a)"
    and "\<bar>roundFinite a\<bar> \<le> \<bar>a\<bar> * (1 + unitRoundoff)"
proof -
  have "pow2 (- 1022) \<le> \<bar>a\<bar> \<or> a * pow2 1074 \<in> \<int>"
    using numeric_10_2_cases [OF assms] pow2_1022_small by auto
  then show b: "\<bar>roundFinite a\<bar> \<le> \<bar>a\<bar> * (1 + unitRoundoff)" by (rule roundFinite_abs)
  have "\<bar>a\<bar> < 10 ^ 8" using assms by (simp add: amount_paid_numeric_10_2_def)
  then have "\<bar>a\<bar> * (1 + unitRoundoff) < 2 ^ 61" by (simp add: unitRoundoff_def)
  with b pow2_1024_large have "\<bar>roundFinite a\<bar> < pow2 1024" by linarith
  then show "roundDouble a = Finite (roundFinite a)" by (rule roundDouble_finite)
qed

lemma amounts_double:
  assumes "\<forall>p \<in> set qs. amount_paid_numeric_10_2 (amount_paid p)"
  shows "map (\<lambda>p. roundDouble (amount_paid p)) qs = map Finite (map (\<lambda>p. roundFinite (amount_paid p)) qs)"
    and "(\<Sum>p\<leftarrow>qs. \<bar>roundFinite (amount_paid p)\<bar>) \<le> (\<Sum>p\<leftarrow>qs. \<bar>amount_paid p\<bar>) * (1 + unitRoundoff)"
    and "(\<Sum>p\<leftarrow>qs. \<bar>amount_paid p\<bar>) \<le> of_nat (length qs) * 10 ^ 8"
  using assms
proof (induction qs)
  case Nil
  { case 1 show ?case by simp next
    case 2 show ?case by simp next
    case 3 show ?case by simp }
next
  case (Cons q qs)
  { case 1 then show ?case using Cons.IH(1) by (simp add: amount_double(1)) next
    case 2
    then have "\<bar>roundFinite (amount_paid q)\<bar> \<le> \<bar>amount_paid q\<bar> * (1 + unitRoundoff)"
      by (simp add: amount_double(2))
    with 2 Cons.IH(2) show ?case by (simp add: algebra_simps) next
    case 3
    then have "\<bar>amount_paid q\<bar> \<le> 10 ^ 8" by (simp add: amount_paid_numeric_10_2_def)
    with 3 Cons.IH(3) show ?case by (simp add: algebra_simps) }
qed

lemma bucket_error:
  assumes "\<forall>p \<in> set qs. amount_paid_numeric_10_2 (amount_paid p)"
    and "length qs \<le> n" and "n < 2 ^ 32"
  shows "\<exists>r. foldl fadd (Finite 0) (map (\<lambda>p. roundDouble (amount_paid p)) qs) = Finite r \<and>
             r * pow2 1074 \<in> \<int> \<and>
             \<bar>r - (\<Sum>p\<leftarrow>qs. roundFinite (amount_paid p))\<bar> \<le>
               ((1 + unitRoundoff) ^ n - 1) * (\<Sum>p\<leftarrow>qs. \<bar>roundFinite (amount_paid p)\<bar>)"
proof -
  define xs where "xs = map (\<lambda>p. roundFinite (amount_paid p)) qs"
  define D where "D = (\<Sum>x\<leftarrow>xs. \<bar>x\<bar>)"
  define G where "G = (1 + unitRoundoff) ^ length xs"
  note am = amounts_double [OF assms(1)]
  have len: "length xs = length qs" by (simp add: xs_def)
  have D0: "0 \<le> D" unfolding D_def by (rule sum_list_nonneg) auto
  have Dq: "D = (\<Sum>p\<leftarrow>qs. \<bar>roundFinite (amount_paid p)\<bar>)"
    by (simp add: D_def xs_def comp_def)
  have "length qs \<le> 2 ^ 33" using assms(2,3) by simp
  then have G2: "G \<le> 2" unfolding G_def len by (rule growth_small(2))
  have G1: "1 \<le> G" unfolding G_def by (rule growth_ge_one)
  have "(of_nat (length qs) :: rat) \<le> of_nat (2 ^ 32)"
    using assms(2,3) by (simp only: of_nat_le_iff)
  then have "(of_nat (length qs) :: rat) * 10 ^ 8 \<le> 2 ^ 32 * 10 ^ 8" by simp
  with am(3) have "(\<Sum>p\<leftarrow>qs. \<bar>amount_paid p\<bar>) \<le> 2 ^ 32 * 10 ^ 8" by linarith
  then have "(\<Sum>p\<leftarrow>qs. \<bar>amount_paid p\<bar>) * (1 + unitRoundoff) \<le> 2 ^ 32 * 10 ^ 8 * (1 + unitRoundoff)"
    using unitRoundoff_pos by (intro mult_right_mono) simp_all
  also have "\<dots> \<le> 2 ^ 59" by (simp add: unitRoundoff_def)
  finally have "D \<le> 2 ^ 59" using am(2) Dq by linarith
  then have "G * D \<le> 2 * 2 ^ 59" using G2 G1 D0 by (intro mult_mono) simp_all
  then have "G * D < pow2 1024" using pow2_1024_large by simp
  then have small: "(1 + unitRoundoff) ^ length xs * (\<bar>0\<bar> + (\<Sum>x\<leftarrow>xs. \<bar>x\<bar>)) < pow2 1024"
    by (simp add: G_def D_def)
  have grid: "\<forall>x \<in> set xs. x * pow2 1074 \<in> \<int>"
    by (auto simp: xs_def roundFinite_grid)
  have zero: "(0::rat) * pow2 1074 \<in> \<int>" by simp
  from floating_sum_error [OF grid zero small] obtain r where
    r: "foldl fadd (Finite 0) (map Finite xs) = Finite r" "r * pow2 1074 \<in> \<int>"
       "\<bar>r - sum_list xs\<bar> \<le> (G - 1) * D"
    by (auto simp: G_def D_def)
  have "G \<le> (1 + unitRoundoff) ^ n" unfolding G_def len using assms(2) by (rule growth_mono)
  then have "(G - 1) * D \<le> ((1 + unitRoundoff) ^ n - 1) * D"
    using D0 by (intro mult_right_mono) simp_all
  with r(3) have "\<bar>r - sum_list xs\<bar> \<le> ((1 + unitRoundoff) ^ n - 1) * D" by linarith
  moreover have "sum_list xs = (\<Sum>p\<leftarrow>qs. roundFinite (amount_paid p))" by (simp add: xs_def)
  moreover have "foldl fadd (Finite 0) (map (\<lambda>p. roundDouble (amount_paid p)) qs) = Finite r"
    using r(1) by (simp add: am(1) xs_def)
  ultimately show ?thesis using r(2) Dq by auto
qed

lemma split_by_method:
  fixes f :: "payment \<Rightarrow> rat"
  assumes "\<forall>p \<in> set ps. payments_payment_method_check (payment_method p)"
  shows "(\<Sum>p\<leftarrow>ps. f p) =
           (\<Sum>p\<leftarrow>filter (\<lambda>p. payment_method p = ''Cash'') ps. f p) +
           (\<Sum>p\<leftarrow>filter (\<lambda>p. payment_method p = ''Zelle'') ps. f p) +
           (\<Sum>p\<leftarrow>filter (\<lambda>p. payment_method p = ''Check'') ps. f p) +
           (\<Sum>p\<leftarrow>filter (\<lambda>p. payment_method p = ''Booker CC'') ps. f p)"
  using assms
  by (induction ps) (auto simp: payments_payment_method_check_def)

lemma magnitude_bound:
  assumes "\<forall>p \<in> set qs. amount_paid_numeric_10_2 (amount_paid p)" and "length qs < 2 ^ 32"
  shows "(\<Sum>p\<leftarrow>qs. \<bar>roundFinite (amount_paid p)\<bar>) \<le> 2 ^ 59"
proof -
  note am = amounts_double [OF assms(1)]
  have "(of_nat (length qs) :: rat) \<le> of_nat (2 ^ 32)"
    using assms(2) by (simp only: of_nat_le_iff)
  then have "(of_nat (length qs) :: rat) * 10 ^ 8 \<le> 2 ^ 32 * 10 ^ 8" by simp
  with am(3) have "(\<Sum>p\<leftarrow>qs. \<bar>amount_paid p\<bar>) \<le> 2 ^ 32 * 10 ^ 8" by linarith
  then have "(\<Sum>p\<leftarrow>qs. \<bar>amount_paid p\<bar>) * (1 + unitRoundoff) \<le> 2 ^ 32 * 10 ^ 8 * (1 + unitRoundoff)"
    using unitRoundoff_pos by (intro mult_right_mono) simp_all
  also have "\<dots> \<le> 2 ^ 59" by (simp add: unitRoundoff_def)
  finally show ?thesis using am(2) by linarith
qed

lemma bucket_magnitude:
  assumes "\<bar>r - S\<bar> \<le> (g - 1) * D" and "\<bar>S\<bar> \<le> D"
  shows "\<bar>r\<bar> \<le> g * (D::rat)"
proof -
  have "\<bar>r\<bar> \<le> \<bar>r - S\<bar> + \<bar>S\<bar>" by linarith
  also have "\<dots> \<le> (g - 1) * D + D" using assms by linarith
  finally show ?thesis by (simp add: algebra_simps)
qed

lemma summary_near:
  assumes m: "\<forall>p \<in> set ps. payments_payment_method_check (payment_method p)"
    and a: "\<forall>p \<in> set ps. amount_paid_numeric_10_2 (amount_paid p)"
    and l: "length ps < 2 ^ 32"
  shows "totalNearSumOfMethods (SummaryCards_summary ps) ps"
proof -
  define n where "n = length ps"
  define u where "u = unitRoundoff"
  define g where "g = (1 + u) ^ n"
  define h where "h = (1 + u) ^ 3"
  define amt :: "payment \<Rightarrow> rat" where "amt = (\<lambda>p. roundFinite (amount_paid p))"
  define mag :: "payment \<Rightarrow> rat" where "mag = (\<lambda>p. \<bar>roundFinite (amount_paid p)\<bar>)"
  define sel :: "string \<Rightarrow> payment list" where "sel = (\<lambda>w. filter (\<lambda>p. payment_method p = w) ps)"
  define A where "A = (\<Sum>p\<leftarrow>ps. \<bar>amount_paid p\<bar>)"
  define D where "D = sum_list (map mag ps)"
  define T where "T = sum_list (map amt ps)"
  have n: "n < 2 ^ 32" using l by (simp add: n_def)
  have u: "0 < u" by (simp add: u_def unitRoundoff_pos)
  have g1: "1 \<le> g" unfolding g_def u_def by (rule growth_ge_one)
  have h1: "1 \<le> h" unfolding h_def u_def by (rule growth_ge_one)
  have sel_a: "\<forall>p \<in> set (sel w). amount_paid_numeric_10_2 (amount_paid p)" for w
    using a by (simp add: sel_def)
  have sel_l: "length (sel w) \<le> n" for w by (simp add: sel_def n_def)
  have abs_sum: "\<bar>sum_list (map amt qs)\<bar> \<le> sum_list (map mag qs)" for qs
    using sum_list_abs [of "map amt qs"] by (simp add: amt_def mag_def comp_def)
  have mag0: "0 \<le> sum_list (map mag qs)" for qs
    by (rule sum_list_nonneg) (auto simp: mag_def)
  have bucket: "\<exists>r. foldl fadd (Finite 0) (map (\<lambda>p. roundDouble (amount_paid p)) qs) = Finite r \<and>
                  r * pow2 1074 \<in> \<int> \<and> \<bar>r - sum_list (map amt qs)\<bar> \<le> (g - 1) * sum_list (map mag qs)"
    if "\<forall>p \<in> set qs. amount_paid_numeric_10_2 (amount_paid p)" "length qs \<le> n" for qs
    using bucket_error [OF that n] by (simp add: g_def u_def amt_def mag_def)
  obtain t where t: "total (SummaryCards_summary ps) = Finite t" "\<bar>t - T\<bar> \<le> (g - 1) * D"
    using bucket [OF a] by (auto simp: SummaryCards_summary_def total_foldl summaryZero_def n_def T_def D_def)
  obtain c where c: "cash (SummaryCards_summary ps) = Finite c" "c * pow2 1074 \<in> \<int>"
      "\<bar>c - sum_list (map amt (sel ''Cash''))\<bar> \<le> (g - 1) * sum_list (map mag (sel ''Cash''))"
    using bucket [OF sel_a sel_l, of "''Cash''"]
    by (auto simp: SummaryCards_summary_def cash_foldl summaryZero_def sel_def)
  obtain z where z: "zelle (SummaryCards_summary ps) = Finite z" "z * pow2 1074 \<in> \<int>"
      "\<bar>z - sum_list (map amt (sel ''Zelle''))\<bar> \<le> (g - 1) * sum_list (map mag (sel ''Zelle''))"
    using bucket [OF sel_a sel_l, of "''Zelle''"]
    by (auto simp: SummaryCards_summary_def zelle_foldl summaryZero_def sel_def)
  obtain k where k: "check (SummaryCards_summary ps) = Finite k" "k * pow2 1074 \<in> \<int>"
      "\<bar>k - sum_list (map amt (sel ''Check''))\<bar> \<le> (g - 1) * sum_list (map mag (sel ''Check''))"
    using bucket [OF sel_a sel_l, of "''Check''"]
    by (auto simp: SummaryCards_summary_def check_foldl summaryZero_def sel_def)
  obtain b where b: "bookerCC (SummaryCards_summary ps) = Finite b" "b * pow2 1074 \<in> \<int>"
      "\<bar>b - sum_list (map amt (sel ''Booker CC''))\<bar> \<le> (g - 1) * sum_list (map mag (sel ''Booker CC''))"
    using bucket [OF sel_a sel_l, of "''Booker CC''"]
    by (auto simp: SummaryCards_summary_def bookerCC_foldl summaryZero_def sel_def)
  define Sc Sz Sk Sb where "Sc = sum_list (map amt (sel ''Cash''))"
    and "Sz = sum_list (map amt (sel ''Zelle''))"
    and "Sk = sum_list (map amt (sel ''Check''))"
    and "Sb = sum_list (map amt (sel ''Booker CC''))"
  define Dc Dz Dk Db where "Dc = sum_list (map mag (sel ''Cash''))"
    and "Dz = sum_list (map mag (sel ''Zelle''))"
    and "Dk = sum_list (map mag (sel ''Check''))"
    and "Db = sum_list (map mag (sel ''Booker CC''))"
  have Tsplit: "T = Sc + Sz + Sk + Sb"
    unfolding T_def Sc_def Sz_def Sk_def Sb_def sel_def by (rule split_by_method [OF m])
  have Dsplit: "D = Dc + Dz + Dk + Db"
    unfolding D_def Dc_def Dz_def Dk_def Db_def sel_def by (rule split_by_method [OF m])
  have D0: "0 \<le> D" "0 \<le> Dc" "0 \<le> Dz" "0 \<le> Dk" "0 \<le> Db"
    by (simp_all add: D_def Dc_def Dz_def Dk_def Db_def mag0)
  have ec: "\<bar>c - Sc\<bar> \<le> (g - 1) * Dc" using c(3) by (simp add: Sc_def Dc_def)
  have ez: "\<bar>z - Sz\<bar> \<le> (g - 1) * Dz" using z(3) by (simp add: Sz_def Dz_def)
  have ek: "\<bar>k - Sk\<bar> \<le> (g - 1) * Dk" using k(3) by (simp add: Sk_def Dk_def)
  have eb: "\<bar>b - Sb\<bar> \<le> (g - 1) * Db" using b(3) by (simp add: Sb_def Db_def)
  have mc: "\<bar>c\<bar> \<le> g * Dc" using ec abs_sum [of "sel ''Cash''"] by (intro bucket_magnitude [of c Sc]) (simp_all add: Sc_def Dc_def)
  have mz: "\<bar>z\<bar> \<le> g * Dz" using ez abs_sum [of "sel ''Zelle''"] by (intro bucket_magnitude [of z Sz]) (simp_all add: Sz_def Dz_def)
  have mk: "\<bar>k\<bar> \<le> g * Dk" using ek abs_sum [of "sel ''Check''"] by (intro bucket_magnitude [of k Sk]) (simp_all add: Sk_def Dk_def)
  have mb: "\<bar>b\<bar> \<le> g * Db" using eb abs_sum [of "sel ''Booker CC''"] by (intro bucket_magnitude [of b Sb]) (simp_all add: Sb_def Db_def)
  define W where "W = \<bar>c\<bar> + (\<bar>z\<bar> + (\<bar>k\<bar> + \<bar>b\<bar>))"
  have W: "W \<le> g * D" "0 \<le> W"
    using mc mz mk mb by (simp_all add: W_def Dsplit algebra_simps)
  have E2: "\<bar>(c + z + k + b) - T\<bar> \<le> (g - 1) * D"
  proof -
    have "\<bar>(c + z + k + b) - T\<bar> \<le> \<bar>c - Sc\<bar> + \<bar>z - Sz\<bar> + \<bar>k - Sk\<bar> + \<bar>b - Sb\<bar>"
      unfolding Tsplit by linarith
    also have "\<dots> \<le> (g - 1) * Dc + (g - 1) * Dz + (g - 1) * Dk + (g - 1) * Db"
      using ec ez ek eb by linarith
    finally show ?thesis by (simp add: Dsplit algebra_simps)
  qed
  have Dbig: "D \<le> 2 ^ 59" unfolding D_def mag_def by (rule magnitude_bound [OF a l])
  have DA: "D \<le> A * (1 + u)"
    using amounts_double(2) [OF a] by (simp add: D_def mag_def A_def u_def)
  have A0: "0 \<le> A" unfolding A_def by (rule sum_list_nonneg) auto
  have gh: "g * h = (1 + u) ^ (n + 3)" by (simp add: g_def h_def power_add)
  have "n + 3 \<le> 2 ^ 33" using n by simp
  then have gh2: "g * h \<le> 2" unfolding gh u_def by (rule growth_small(2))
  have "h * W \<le> h * (g * D)" using W(1) h1 by (intro mult_left_mono) simp_all
  also have "\<dots> = (g * h) * D" by (simp add: mult_ac)
  also have "\<dots> \<le> 2 * 2 ^ 59" using gh2 Dbig D0(1) g1 h1 by (intro mult_mono) simp_all
  finally have "h * W < pow2 1024" using pow2_1024_large by simp
  then have hW: "(1 + unitRoundoff) ^ 3 * (\<bar>c\<bar> + (\<bar>z\<bar> + (\<bar>k\<bar> + \<bar>b\<bar>))) < pow2 1024"
    by (simp only: h_def u_def W_def)
  have len3: "length [z, k, b] = 3" by simp
  have abs3: "(\<Sum>x\<leftarrow>[z, k, b]. \<bar>x\<bar>) = \<bar>z\<bar> + (\<bar>k\<bar> + \<bar>b\<bar>)" by simp
  have sum3: "c + sum_list [z, k, b] = c + z + k + b" by simp
  have small: "(1 + unitRoundoff) ^ length [z, k, b] * (\<bar>c\<bar> + (\<Sum>x\<leftarrow>[z, k, b]. \<bar>x\<bar>)) < pow2 1024"
    unfolding len3 abs3 by (rule hW)
  have grid: "\<forall>x \<in> set [z, k, b]. x * pow2 1074 \<in> \<int>" using z(2) k(2) b(2) by simp
  from floating_sum_error [OF grid c(2) small] obtain s where
    s: "foldl fadd (Finite c) (map Finite [z, k, b]) = Finite s"
       "\<bar>s - (c + z + k + b)\<bar> \<le> (h - 1) * W"
    unfolding len3 abs3 sum3 h_def u_def W_def by blast
  have sm: "sumOfMethods (SummaryCards_summary ps) = Finite s"
    using s(1) by (simp add: sumOfMethods_def c(1) z(1) k(1) b(1))
  have E3: "\<bar>s - (c + z + k + b)\<bar> \<le> (h - 1) * (g * D)"
  proof -
    have "(h - 1) * W \<le> (h - 1) * (g * D)" using W(1) h1 by (intro mult_left_mono) simp_all
    with s(2) show ?thesis by linarith
  qed
  have "\<bar>t - s\<bar> \<le> \<bar>t - T\<bar> + \<bar>(c + z + k + b) - T\<bar> + \<bar>s - (c + z + k + b)\<bar>" by linarith
  also have "\<dots> \<le> (g - 1) * D + (g - 1) * D + (h - 1) * (g * D)"
    using t(2) E2 E3 by linarith
  also have "\<dots> = (g + g * h - 2) * D" by (simp add: algebra_simps)
  also have "\<dots> \<le> (2 * (g * h) - 2) * D"
  proof -
    have "g * 1 \<le> g * h" using h1 g1 by (intro mult_left_mono) simp_all
    then have "g + g * h - 2 \<le> 2 * (g * h) - 2" by simp
    then show ?thesis using D0(1) by (intro mult_right_mono) simp_all
  qed
  also have "\<dots> \<le> (2 * (g * h) - 2) * (A * (1 + u))"
  proof -
    have "1 \<le> g * h" using g1 h1 by (metis mult_mono mult_1 zero_le_one order_trans)
    then have "0 \<le> 2 * (g * h) - 2" by simp
    then show ?thesis using DA by (intro mult_left_mono) simp_all
  qed
  also have "\<dots> = (2 * (g * h * (1 + u)) - 2 * (1 + u)) * A" by (simp add: algebra_simps)
  also have "\<dots> \<le> (2 * (g * h * (1 + u)) - 2) * A"
    using u A0 by (intro mult_right_mono) simp_all
  also have "\<dots> \<le> (of_nat n + 4) / 2 ^ 51 * A"
  proof -
    have "n + 4 = Suc (n + 3)" by simp
    then have "(1 + u) ^ (n + 4) = (1 + u) ^ (n + 3) * (1 + u)" by (simp only: power_Suc2)
    then have e: "g * h * (1 + u) = (1 + u) ^ (n + 4)" by (simp only: gh)
    have "n + 4 \<le> 2 ^ 33" using n by simp
    then have "(1 + u) ^ (n + 4) \<le> 1 + 2 * of_nat (n + 4) * u"
      unfolding u_def by (rule growth_small(1))
    then have "2 * (g * h * (1 + u)) - 2 \<le> 4 * of_nat (n + 4) * u"
      unfolding e by (simp add: algebra_simps)
    also have "\<dots> = (of_nat n + 4) / 2 ^ 51" by (simp add: u_def unitRoundoff_def)
    finally show ?thesis using A0 by (intro mult_right_mono) simp_all
  qed
  finally have "\<bar>t - s\<bar> \<le> roundingErrorBound ps"
    by (simp add: roundingErrorBound_def n_def A_def)
  then show ?thesis by (simp add: totalNearSumOfMethods_def t(1) sm)
qed

section \<open>What holds in a New York browser, and in zones near UTC\<close>

text \<open>In a New York browser the two filters agree on every record of a four-digit year.\<close>

lemma filters_agree_in_new_york:
  assumes "searchTerm c = []" and "dateFrom c = dayKey n1" and "dateTo c = dayKey n2"
    and "keyedDay n1" and "keyedDay n2"
    and "1000 \<le> YearFromDay (Day (LocalTime USEastern (timestamp p)))"
    and "YearFromDay (Day (LocalTime USEastern (timestamp p))) \<le> 9999"
  shows "filterCallback USEastern c p =
         reportFilterCallback (dateFrom c) (dateTo c) (paymentMethod c) p"
proof -
  define dp where "dp = Day (LocalTime USEastern (timestamp p))"
  have yr: "1000 \<le> YearFromDay dp" "YearFromDay dp \<le> 9999"
    using assms(6,7) by (simp_all add: dp_def)
  have k: "0 \<le> YearFromDay n1" "YearFromDay n1 \<le> 9999" "0 \<le> YearFromDay n2"
    "YearFromDay n2 \<le> 9999"
    using assms(4,5) by (simp_all add: keyedDay_def)
  have po: "dateOnly USEastern (timestamp p) = UTCofLocal USEastern (MakeDate dp 0)"
    using dateOnly_eq [of USEastern "timestamp p"] yr by (simp add: getFullYear_def dp_def)
  have et: "getETDateString (timestamp p) = dayKey dp"
    using getETDateString_dayKey [of "timestamp p"] yr by (simp add: dp_def)
  have client: "filterCallback USEastern c p \<longleftrightarrow>
      n1 \<le> dp \<and> dp \<le> n2 \<and> (paymentMethod c = [] \<or> payment_method p = paymentMethod c)"
    by (auto simp add: filterCallback_def Let_def assms(1,2,3) dayKey_not_empty po
        bounds_of_dayKeys [OF assms(4)] bounds_of_dayKeys [OF assms(5)]
        matchesDateFrom_def matchesDateTo_def UTCofLocal_days_le_iff includes_js_empty
        toLowerCase_def simp del: UTCofLocal.simps)
  have o1: "js_str_le (dayKey n1) (dayKey dp) \<longleftrightarrow> n1 \<le> dp"
    by (rule js_str_le_dayKey) (use k yr in simp_all)
  have o2: "js_str_le (dayKey dp) (dayKey n2) \<longleftrightarrow> dp \<le> n2"
    by (rule js_str_le_dayKey) (use k yr in simp_all)
  have server: "reportFilterCallback (dateFrom c) (dateTo c) (paymentMethod c) p \<longleftrightarrow>
      n1 \<le> dp \<and> dp \<le> n2 \<and> (paymentMethod c = [] \<or> payment_method p = paymentMethod c)"
    by (simp add: reportFilterCallback_def Let_def assms(2,3) et o1 o2)
  from client server show ?thesis by simp
qed

lemma subsets_agree_in_new_york:
  assumes "searchTerm c = []" and "dateFrom c = dayKey n1" and "dateTo c = dayKey n2"
    and "keyedDay n1" and "keyedDay n2"
    and "\<forall>p \<in> set R. 1000 \<le> YearFromDay (Day (LocalTime USEastern (timestamp p))) \<and>
                     YearFromDay (Day (LocalTime USEastern (timestamp p))) \<le> 9999"
  shows "filteredPayments USEastern c R =
         reportFilteredPayments (dateFrom c) (dateTo c) (paymentMethod c) R"
  unfolding filteredPayments_def reportFilteredPayments_def
  by (rule filter_cong [OF refl])
    (use assms in \<open>simp add: filters_agree_in_new_york [OF assms(1-5)]\<close>)

text \<open>
  A record stamped 03:30 UTC on day \<open>D\<close> falls on day \<open>D - 1\<close> in New York: in a New
  York browser the filter for \<open>D - 1\<close> keeps it and the filter for \<open>D\<close> drops it.
\<close>

lemma early_morning_utc_is_previous_eastern_day:
  assumes "timestamp p = MakeDate D (MakeTime 3 30 0)" and "keyedDay D" and "keyedDay (D - 1)"
  shows "Day (LocalTime USEastern (timestamp p)) = D - 1"
    and "dateFrom c = dayKey (D - 1) \<and> dateTo c = dayKey (D - 1) \<longrightarrow>
            filterCallback USEastern c p =
              (includes_js (toLowerCase (client_name p)) (toLowerCase (searchTerm c)) \<and>
               (paymentMethod c = [] \<or> payment_method p = paymentMethod c))"
    and "dateFrom c' = dayKey D \<and> dateTo c' = dayKey D \<longrightarrow> \<not> filterCallback USEastern c' p"
proof -
  show day: "Day (LocalTime USEastern (timestamp p)) = D - 1"
    by (simp add: assms(1) Eastern_early_morning_day)
  have yr: "100 \<le> YearFromDay (D - 1)" using assms(3) by (simp add: keyedDay_def)
  have po: "dateOnly USEastern (timestamp p) = UTCofLocal USEastern (MakeDate (D - 1) 0)"
    using dateOnly_eq [of USEastern "timestamp p"] yr by (simp add: getFullYear_def day)
  have lt: "UTCofLocal USEastern (MakeDate (D - 1) 0) < UTCofLocal USEastern (MakeDate D 0)"
    by (rule UTCofLocal_days_mono) simp
  show "dateFrom c = dayKey (D - 1) \<and> dateTo c = dayKey (D - 1) \<longrightarrow>
            filterCallback USEastern c p =
              (includes_js (toLowerCase (client_name p)) (toLowerCase (searchTerm c)) \<and>
               (paymentMethod c = [] \<or> payment_method p = paymentMethod c))"
    by (simp add: filterCallback_def Let_def dayKey_not_empty po bounds_of_dayKeys [OF assms(3)]
        matchesDateFrom_def matchesDateTo_def)
  show "dateFrom c' = dayKey D \<and> dateTo c' = dayKey D \<longrightarrow> \<not> filterCallback USEastern c' p"
    using lt
    by (simp add: filterCallback_def Let_def dayKey_not_empty po bounds_of_dayKeys [OF assms(2)]
        matchesDateFrom_def matchesDateTo_def)
qed

lemma shiftedDay_dayKey:
  assumes "noonWithinUTCDay z" and "keyedDay n" and "keyedDay (n + delta)"
  shows "shiftedDay z delta (dayKey n) = Some (dayKey (n + delta))"
proof -
  define noon where "noon = MakeTime 12 0 0"
  define date where "date = UTCofLocal z (MakeDate n noon)"
  have nb: "0 \<le> noon" "noon < msPerDay" "3 * msPerHour \<le> noon"
    by (simp_all add: noon_def MakeTime_def msPerHour_def msPerMinute_def msPerDay_def)
  have yr: "0 \<le> YearFromDay n" "YearFromDay n \<le> 9999"
    using assms(2) by (simp_all add: keyedDay_def)
  have yr': "0 \<le> YearFromDay (n + delta)" "YearFromDay (n + delta) \<le> 9999"
    using assms(3) by (simp_all add: keyedDay_def)
  have nd: "newDateLocal z (dayKey n) 12 0 0 = Some date"
    using yr by (simp add: newDateLocal_dayKey date_def noon_def)
  have tw: "TimeWithinDay (MakeDate n noon) = noon" and dy: "Day (MakeDate n noon) = n"
    using Day_MakeDate [of noon n] nb by simp_all
  have lt: "LocalTime z date = MakeDate n noon"
    unfolding date_def by (rule LocalTime_UTCofLocal) (use nb tw in simp)
  have gd: "getDate z date = DateFromDay n" by (simp add: getDate_def lt dy)
  have sd: "setDate z date (DateFromDay n + delta) = UTCofLocal z (MakeDate (n + delta) noon)"
    by (simp add: setDate_def Let_def lt dy tw MakeDay_shift MakeDay_fields)
  have "Day (UTCofLocal z (MakeDate (n + delta) noon)) = n + delta"
    unfolding noon_def by (rule noon_day [OF assms(1)])
  then have "isoDatePart (UTCofLocal z (MakeDate (n + delta) noon)) = dayKey (n + delta)"
    using isoDatePart_dayKey [of "UTCofLocal z (MakeDate (n + delta) noon)"] yr' by simp
  then show ?thesis
    by (simp add: shiftedDay_def nd gd sd)
qed

text \<open>
  Where local noon falls on the same UTC date (offsets above \<open>-12h\<close> and up to \<open>+12h\<close>,
  and New York), the arrow buttons step by one day and undo each other.
\<close>

lemma day_navigation_within_twelve_hours:
  assumes "noonWithinUTCDay z" and "keyedDay n" and "keyedDay (n - 1)"
  shows "previousDay z (dayKey n) = Some (dayKey (n - 1))"
    and "nextDay z (dayKey (n - 1)) = Some (dayKey n)"
  using shiftedDay_dayKey [OF assms(1,2), of "- 1"] shiftedDay_dayKey [OF assms(1,3), of 1] assms
  by (simp_all add: previousDay_def nextDay_def)

lemma arrow_buttons_without_dateFrom:
  assumes "dateFrom c = []"
  shows "goToPreviousDay z c = c" and "goToNextDay z c = c"
  using assms by (simp_all add: goToPreviousDay_def goToNextDay_def)

lemma arrow_buttons_collapse_range:
  "dateFrom (goToPreviousDay z c) = dateTo (goToPreviousDay z c) \<or> goToPreviousDay z c = c"
  "dateFrom (goToNextDay z c) = dateTo (goToNextDay z c) \<or> goToNextDay z c = c"
  by (simp_all add: goToPreviousDay_def goToNextDay_def split: option.splits)

lemma newDateLocal_fixed:
  "newDateLocal (FixedOffset k) key h mi s =
     map_option (\<lambda>L. L - k * msPerMinute) (newDateLocal (FixedOffset 0) key h mi s)"
  by (simp add: newDateLocal_def split: option.splits)

lemma newDateLocal_whole_second:
  assumes "newDateLocal (FixedOffset 0) key h mi 0 = Some L"
  shows "L mod 1000 = 0"
proof -
  obtain y m d where "L = MakeDate (MakeDay y (m - 1) d) (MakeTime h mi 0)"
    using assms by (auto simp: newDateLocal_def split: option.splits)
  then have "L = 1000 * (MakeDay y (m - 1) d * 86400 + h * 3600 + mi * 60)"
    by (simp add: MakeDate_def MakeTime_def msPerDay_def msPerHour_def msPerMinute_def)
  then show ?thesis by simp
qed

text \<open>
  In a browser with a fixed offset \<open>convertLocalDateTimeToUTC\<close> returns the wall-clock
  value read as UTC, whatever the offset: the Eastern offset plays no part.
\<close>

lemma convertLocalDateTimeToUTC_fixed_zone:
  "convertLocalDateTimeToUTC (FixedOffset k) s = newDateLocalMinute (FixedOffset 0) s"
proof (cases "newDateLocalMinute (FixedOffset 0) s")
  case None
  then have "newDateLocalMinute (FixedOffset k) s = None"
    by (auto simp: newDateLocalMinute_def newDateLocal_fixed [of k] split: if_splits option.splits)
  with None show ?thesis by (simp add: convertLocalDateTimeToUTC_def)
next
  case (Some L)
  then have k: "newDateLocalMinute (FixedOffset k) s = Some (L - k * msPerMinute)"
    by (auto simp: newDateLocalMinute_def newDateLocal_fixed [of k] split: if_splits option.splits)
  have "L mod 1000 = 0"
    using Some by (auto simp: newDateLocalMinute_def newDateLocal_whole_second
        split: if_splits option.splits)
  then have "(L - k * msPerMinute) mod 1000 = 0"
    by (simp add: msPerMinute_def mod_diff_eq [symmetric] flip: mod_diff_eq)
  then show ?thesis
    by (simp add: convertLocalDateTimeToUTC_def k Some Let_def)
qed

lemma cent_records_filtered:
  "filteredPayments USEastern noCriteria centRecords = centRecords"
  "reportFilteredPayments ''2025-10-19'' ''2025-10-19'' [] centRecords = centRecords"
  by code_simp+

lemma cent_records_summary:
  "SummaryCards_summary centRecords =
     \<lparr>cash = Finite (3602879701896397 / 2 ^ 56), zelle = Finite (5764607523034235 / 2 ^ 59),
      check = Finite 0, bookerCC = Finite 0, total = Finite (1080863910568919 / 2 ^ 54)\<rparr>"
  by code_simp

lemma cent_records_sumOfMethods:
  "sumOfMethods
     \<lparr>cash = Finite (3602879701896397 / 2 ^ 56), zelle = Finite (5764607523034235 / 2 ^ 59),
      check = Finite 0, bookerCC = Finite 0, total = Finite (1080863910568919 / 2 ^ 54)\<rparr> =
   Finite (8646911284551353 / 2 ^ 57)"
  by code_simp

lemma cent_records_doubles:
  "roundDouble (6 / 100) = Finite (1080863910568919 / 2 ^ 54)"
  "roundDouble (5 / 100) = Finite (3602879701896397 / 2 ^ 56)"
  "roundDouble (1 / 100) = Finite (5764607523034235 / 2 ^ 59)"
  by code_simp+

section \<open>C1: the report's filter against the dashboard's filter\<close>

text \<open>
  C1 says that the report function and the dashboard select the same records for the same
  date range and method.  The report function compares the New York date of a record; the
  dashboard compares the date on which the record falls in the zone of the browser.  For a
  browser in Phoenix, the record stamped 2025-10-20T05:00Z and the range 2025-10-20 to
  2025-10-20, the report selects the record and the dashboard selects nothing, so the
  report totals 40 and the dashboard 0; for a browser in New York the dashboard selects
  the record too.
\<close>

theorem report_and_dashboard_select_differently:
  "reportFilteredPayments ''2025-10-20'' ''2025-10-20'' [] [boundaryRecord] = [boundaryRecord] \<and>
   filteredPayments (FixedOffset (- 420)) (singleDay ''2025-10-20'') [boundaryRecord] = [] \<and>
   filteredPayments USEastern (singleDay ''2025-10-20'') [boundaryRecord] = [boundaryRecord] \<and>
   total (reportSummary (reportFilteredPayments ''2025-10-20'' ''2025-10-20'' [] [boundaryRecord])) = Finite 40 \<and>
   total (SummaryCards_summary
            (filteredPayments (FixedOffset (- 420)) (singleDay ''2025-10-20'') [boundaryRecord])) = Finite 0"
  by code_simp

text \<open>
  The answer of the endpoint to the request that the dashboard sends for these criteria
  is the report with the record.
\<close>

lemma dashboard_request_is_answered_with_the_record:
  "body (serve (reportRequest (singleDay ''2025-10-20'') 0 0) (QueryRows [boundaryRecord])) =
     Html (generateHTMLReport [boundaryRecord] (reportSummary [boundaryRecord])
             ''2025-10-20'' ''2025-10-20'' [])"
  by code_simp

section \<open>C2: the record stamped 23:30 UTC\<close>




section \<open>C3: the round trip through the edit form\<close>

text \<open>
  C3 says that \<open>convertLocalDateTimeToUTC\<close> undoes \<open>getDateTimeLocalValueInET\<close>.  For
  the instant 2025-10-19T18:00:00Z the form value is \<open>2025-10-19T14:00\<close>, and in a New
  York browser \<open>convertLocalDateTimeToUTC\<close> turns it into 2025-10-19T14:00:00Z, four
  hours before the instant.
\<close>

theorem form_round_trip_loses_the_offset:
  "getDateTimeLocalValueInET (MakeDate (MakeDay 2025 9 19) (MakeTime 18 0 0)) = ''2025-10-19T14:00'' \<and>
   convertLocalDateTimeToUTC USEastern ''2025-10-19T14:00'' =
     Some (MakeDate (MakeDay 2025 9 19) (MakeTime 14 0 0))"
  by code_simp

section \<open>C4: the summary invariant\<close>

text \<open>
  C4, as amended.  The sums are binary64 numbers; the total is added in the order of the
  records and each method sum in the order of its own records, so
  \<open>total = cash + zelle + check + bookerCC\<close> holds up to rounding only.  For every record
  set of fewer than \<open>2 ^ 32\<close> records (the bound on the length of an array) whose payment
  methods are among the four and whose amounts are values of the column
  \<open>numeric(10, 2)\<close>, whatever the criteria and the browser's zone, the summary of the
  dashboard's visible subset and the summary of the report's filtered subset have finite
  sums, and in each of them the total differs from \<open>cash + zelle + check + bookerCC\<close> by
  at most \<open>(n + 4) / 2 ^ 51\<close> times the sum of the absolute amounts of the subset, \<open>n\<close>
  being the number of its records.
\<close>

theorem summary_total_near_sum_of_methods:
  assumes "\<forall>p \<in> set R. payments_payment_method_check (payment_method p)"
    and "\<forall>p \<in> set R. amount_paid_numeric_10_2 (amount_paid p)"
    and "length R < 2 ^ 32"
  shows "totalNearSumOfMethods (SummaryCards_summary (filteredPayments z c R))
           (filteredPayments z c R) \<and>
         totalNearSumOfMethods (reportSummary (reportFilteredPayments df dt pm R))
           (reportFilteredPayments df dt pm R)"
proof -
  have "length (filteredPayments z c R) \<le> length R"
    by (simp add: filteredPayments_def)
  with assms(3) have l1: "length (filteredPayments z c R) < 2 ^ 32" by simp
  have "length (reportFilteredPayments df dt pm R) \<le> length R"
    by (simp add: reportFilteredPayments_def)
  with assms(3) have l2: "length (reportFilteredPayments df dt pm R) < 2 ^ 32" by simp
  have m1: "\<forall>p \<in> set (filteredPayments z c R). payments_payment_method_check (payment_method p)"
    and a1: "\<forall>p \<in> set (filteredPayments z c R). amount_paid_numeric_10_2 (amount_paid p)"
    using assms(1,2) by (simp_all add: filteredPayments_def)
  have m2: "\<forall>p \<in> set (reportFilteredPayments df dt pm R).
              payments_payment_method_check (payment_method p)"
    and a2: "\<forall>p \<in> set (reportFilteredPayments df dt pm R).
              amount_paid_numeric_10_2 (amount_paid p)"
    using assms(1,2) by (simp_all add: reportFilteredPayments_def)
  from summary_near [OF m1 a1 l1] summary_near [OF m2 a2 l2] show ?thesis
    by (simp only: reportSummary_eq)
qed

theorem summary_total_near_sum_of_methods_witness:
  "list_all (\<lambda>p. payments_payment_method_check (payment_method p)) centRecords \<and>
   list_all (\<lambda>p. amount_paid_numeric_10_2 (amount_paid p)) centRecords \<and>
   length centRecords < 2 ^ 32 \<and>
   totalNearSumOfMethods (SummaryCards_summary (filteredPayments USEastern noCriteria centRecords))
     (filteredPayments USEastern noCriteria centRecords) \<and>
   totalNearSumOfMethods
     (reportSummary (reportFilteredPayments ''2025-10-19'' ''2025-10-19'' [] centRecords))
     (reportFilteredPayments ''2025-10-19'' ''2025-10-19'' [] centRecords)"
proof -
  have m: "\<forall>p \<in> set centRecords. payments_payment_method_check (payment_method p)"
    by (simp add: centRecords_def payments_payment_method_check_def)
  have a: "\<forall>p \<in> set centRecords. amount_paid_numeric_10_2 (amount_paid p)"
    by (simp add: centRecords_def amount_paid_numeric_10_2_def)
  have l: "length centRecords < 2 ^ 32"
    by (simp add: centRecords_def)
  show ?thesis
    using m a l
      summary_total_near_sum_of_methods [OF m a l, of USEastern noCriteria
        "''2025-10-19''" "''2025-10-19''" "[]"]
    by (simp add: list_all_iff)
qed

text \<open>
  C4 as stated fails.  Of the records of one cent (Cash), one cent (Zelle) and four cents
  (Cash) neither filter drops one.  The total, \<open>(0.01 + 0.01) + 0.04\<close>, is the number
  \<open>0.06\<close>; the cash sum \<open>0.01 + 0.04\<close> is the number \<open>0.05\<close>, and
  \<open>cash + zelle + check + bookerCC\<close> is \<open>0.060000000000000005\<close>, the next number after
  \<open>0.06\<close>.
\<close>

theorem cent_records_counterexample:
  "filteredPayments USEastern noCriteria centRecords = centRecords \<and>
   reportFilteredPayments ''2025-10-19'' ''2025-10-19'' [] centRecords = centRecords \<and>
   list_all (\<lambda>p. payments_payment_method_check (payment_method p)) centRecords \<and>
   total (SummaryCards_summary centRecords) = roundDouble (6 / 100) \<and>
   cash (SummaryCards_summary centRecords) = roundDouble (5 / 100) \<and>
   zelle (SummaryCards_summary centRecords) = roundDouble (1 / 100) \<and>
   sumOfMethods (SummaryCards_summary centRecords) = Finite (8646911284551353 / 2 ^ 57) \<and>
   total (SummaryCards_summary centRecords) = Finite (8646911284551352 / 2 ^ 57) \<and>
   \<not> totalIsSumOfMethods (SummaryCards_summary (filteredPayments USEastern noCriteria centRecords)) \<and>
   \<not> totalIsSumOfMethods
       (reportSummary (reportFilteredPayments ''2025-10-19'' ''2025-10-19'' [] centRecords))"
proof -
  have m: "list_all (\<lambda>p. payments_payment_method_check (payment_method p)) centRecords"
    by (simp add: centRecords_def payments_payment_method_check_def)
  have t: "total (SummaryCards_summary centRecords) = roundDouble (6 / 100)"
    and c: "cash (SummaryCards_summary centRecords) = roundDouble (5 / 100)"
    and z: "zelle (SummaryCards_summary centRecords) = roundDouble (1 / 100)"
    by (simp_all only: cent_records_summary cent_records_doubles summary.select_convs)
  have s: "sumOfMethods (SummaryCards_summary centRecords) = Finite (8646911284551353 / 2 ^ 57)"
    by (simp only: cent_records_summary cent_records_sumOfMethods)
  have t': "total (SummaryCards_summary centRecords) = Finite (8646911284551352 / 2 ^ 57)"
    by (simp add: cent_records_summary)
  have n: "\<not> totalIsSumOfMethods (SummaryCards_summary centRecords)"
    unfolding totalIsSumOfMethods_def strictEquals_def s t' by simp
  from m t c z s t' n show ?thesis
    by (simp only: cent_records_filtered reportSummary_eq simp_thms)
qed

section \<open>C5: previous day, then next day\<close>

text \<open>
  C5 says that the next day of the previous day of a date key is the key itself.  In a
  browser thirteen hours ahead of UTC (Pacific/Tongatapu) the previous day of 2025-01-15
  is computed as 2025-01-13, and the next day of 2025-01-13 as 2025-01-13.
\<close>

theorem next_of_previous_day_far_east:
  "previousDay (FixedOffset 780) ''2025-01-15'' = Some ''2025-01-13'' \<and>
   nextDay (FixedOffset 780) ''2025-01-13'' = Some ''2025-01-13''"
  by code_simp

section \<open>C6: store actions\<close>

text \<open>
  C6.  For add, update (with a payment being edited) and delete: when the store call
  succeeds, the next call is the full \<open>list()\<close> reload, and if the reload delivers
  \<open>data\<close> the state holds \<open>data\<close> and the dashboard shows the visible subset and the
  summary of \<open>data\<close>; when the store call fails, the state is unchanged and no reload is
  made.
\<close>

theorem store_actions_reload_or_leave_unchanged:
  "(insertResult = Succeeded () \<longrightarrow>
      take 2 (snd (handleAddPayment st formData insertResult listResult)) =
        [StoreInsert formData, StoreList] \<and>
      (\<forall>data. listResult = Succeeded data \<longrightarrow>
         payments (fst (handleAddPayment st formData insertResult listResult)) = data \<and>
         dashboardView z c (fst (handleAddPayment st formData insertResult listResult)) =
           (filteredPayments z c data, SummaryCards_summary (filteredPayments z c data)))) \<and>
   (insertResult = Failed e \<longrightarrow>
      fst (handleAddPayment st formData insertResult listResult) = st \<and>
      StoreList \<notin> set (snd (handleAddPayment st formData insertResult listResult))) \<and>
   (editingPayment st = Some editing \<and> updateResult = Succeeded () \<longrightarrow>
      take 2 (snd (handleUpdatePayment st formData updateResult listResult)) =
        [StoreUpdate (payment_id editing) formData, StoreList] \<and>
      (\<forall>data. listResult = Succeeded data \<longrightarrow>
         payments (fst (handleUpdatePayment st formData updateResult listResult)) = data \<and>
         dashboardView z c (fst (handleUpdatePayment st formData updateResult listResult)) =
           (filteredPayments z c data, SummaryCards_summary (filteredPayments z c data)))) \<and>
   (editingPayment st = Some editing \<and> updateResult = Failed e \<longrightarrow>
      fst (handleUpdatePayment st formData updateResult listResult) = st \<and>
      StoreList \<notin> set (snd (handleUpdatePayment st formData updateResult listResult))) \<and>
   (deleteResult = Succeeded () \<longrightarrow>
      take 2 (snd (handleDeletePayment st ident deleteResult listResult)) =
        [StoreDelete ident, StoreList] \<and>
      (\<forall>data. listResult = Succeeded data \<longrightarrow>
         payments (fst (handleDeletePayment st ident deleteResult listResult)) = data \<and>
         dashboardView z c (fst (handleDeletePayment st ident deleteResult listResult)) =
           (filteredPayments z c data, SummaryCards_summary (filteredPayments z c data)))) \<and>
   (deleteResult = Failed e \<longrightarrow>
      fst (handleDeletePayment st ident deleteResult listResult) = st \<and>
      StoreList \<notin> set (snd (handleDeletePayment st ident deleteResult listResult)))"
proof -
  have add_ok: "insertResult = Succeeded () \<longrightarrow>
      take 2 (snd (handleAddPayment st formData insertResult listResult)) =
        [StoreInsert formData, StoreList] \<and>
      (\<forall>data. listResult = Succeeded data \<longrightarrow>
         payments (fst (handleAddPayment st formData insertResult listResult)) = data \<and>
         dashboardView z c (fst (handleAddPayment st formData insertResult listResult)) =
           (filteredPayments z c data, SummaryCards_summary (filteredPayments z c data)))"
    by (cases listResult) (simp_all add: handleAddPayment_def loadPayments_def dashboardView_def)
  have add_fail: "insertResult = Failed e \<longrightarrow>
      fst (handleAddPayment st formData insertResult listResult) = st \<and>
      StoreList \<notin> set (snd (handleAddPayment st formData insertResult listResult))"
    by (simp add: handleAddPayment_def)
  have upd_ok: "editingPayment st = Some editing \<and> updateResult = Succeeded () \<longrightarrow>
      take 2 (snd (handleUpdatePayment st formData updateResult listResult)) =
        [StoreUpdate (payment_id editing) formData, StoreList] \<and>
      (\<forall>data. listResult = Succeeded data \<longrightarrow>
         payments (fst (handleUpdatePayment st formData updateResult listResult)) = data \<and>
         dashboardView z c (fst (handleUpdatePayment st formData updateResult listResult)) =
           (filteredPayments z c data, SummaryCards_summary (filteredPayments z c data)))"
    by (cases listResult) (simp_all add: handleUpdatePayment_def loadPayments_def dashboardView_def)
  have upd_fail: "editingPayment st = Some editing \<and> updateResult = Failed e \<longrightarrow>
      fst (handleUpdatePayment st formData updateResult listResult) = st \<and>
      StoreList \<notin> set (snd (handleUpdatePayment st formData updateResult listResult))"
    by (simp add: handleUpdatePayment_def)
  have del_ok: "deleteResult = Succeeded () \<longrightarrow>
      take 2 (snd (handleDeletePayment st ident deleteResult listResult)) =
        [StoreDelete ident, StoreList] \<and>
      (\<forall>data. listResult = Succeeded data \<longrightarrow>
         payments (fst (handleDeletePayment st ident deleteResult listResult)) = data \<and>
         dashboardView z c (fst (handleDeletePayment st ident deleteResult listResult)) =
           (filteredPayments z c data, SummaryCards_summary (filteredPayments z c data)))"
    by (cases listResult) (simp_all add: handleDeletePayment_def loadPayments_def dashboardView_def)
  have del_fail: "deleteResult = Failed e \<longrightarrow>
      fst (handleDeletePayment st ident deleteResult listResult) = st \<and>
      StoreList \<notin> set (snd (handleDeletePayment st ident deleteResult listResult))"
    by (simp add: handleDeletePayment_def)
  from add_ok add_fail upd_ok upd_fail del_ok del_fail show ?thesis by blast
qed

theorem store_actions_reload_or_leave_unchanged_witness:
  "editingPayment idleState = Some boundaryRecord \<and>
   payments (fst (handleAddPayment idleState sampleForm (Succeeded ()) (Succeeded scenarioRecords))) =
     scenarioRecords \<and>
   payments (fst (handleUpdatePayment idleState sampleForm (Succeeded ()) (Succeeded scenarioRecords))) =
     scenarioRecords \<and>
   payments (fst (handleDeletePayment idleState ''n'' (Succeeded ()) (Succeeded scenarioRecords))) =
     scenarioRecords \<and>
   fst (handleAddPayment idleState sampleForm (Failed ''denied'') (Succeeded scenarioRecords)) =
     idleState \<and>
   fst (handleUpdatePayment idleState sampleForm (Failed ''denied'') (Succeeded scenarioRecords)) =
     idleState \<and>
   fst (handleDeletePayment idleState ''n'' (Failed ''denied'') (Succeeded scenarioRecords)) =
     idleState"
proof -
  have ed: "editingPayment idleState = Some boundaryRecord" by (simp add: idleState_def)
  show ?thesis
    using ed
      store_actions_reload_or_leave_unchanged [of "Succeeded ()" idleState sampleForm
        "Succeeded scenarioRecords" USEastern "singleDay ''2025-10-19''" "''denied''" boundaryRecord
        "Succeeded ()" "Succeeded ()" "''n''"]
      store_actions_reload_or_leave_unchanged [of "Failed ''denied''" idleState sampleForm
        "Succeeded scenarioRecords" USEastern "singleDay ''2025-10-19''" "''denied''" boundaryRecord
        "Failed ''denied''" "Failed ''denied''" "''n''"]
    by simp
qed

section \<open>C7: answers of the report endpoint\<close>

text \<open>
  C7, as amended.  For every request other than the \<open>OPTIONS\<close> preflight (which is
  answered with status 200 and no body): the answer has status 400 if and only if
  \<open>dateFrom\<close> or \<open>dateTo\<close> is absent or empty, and it is then the JSON error "dateFrom
  and dateTo parameters are required"; otherwise, when the query on the table fails, the
  answer is the JSON error with status 500 that carries the message and the two
  parameters; otherwise the answer has status 200 and content type \<open>text/html\<close> and is
  the report document, an absent or empty \<open>paymentMethod\<close> selecting every method.
\<close>

theorem report_endpoint_answers:
  assumes "req_method req \<noteq> ''OPTIONS''"
  shows "(status (serve req db) = 400 \<longleftrightarrow> \<not> truthy (q_dateFrom req) \<or> \<not> truthy (q_dateTo req)) \<and>
         (\<not> truthy (q_dateFrom req) \<or> \<not> truthy (q_dateTo req) \<longrightarrow>
            serve req db =
              \<lparr>status = 400, contentType = Some ''application/json'',
               body = JsonRequired ''dateFrom and dateTo parameters are required''\<rparr>) \<and>
         (truthy (q_dateFrom req) \<and> truthy (q_dateTo req) \<longrightarrow>
            (case db of
               QueryError message \<Rightarrow>
                 serve req db =
                   \<lparr>status = 500, contentType = Some ''application/json'',
                    body = JsonFailure message (q_dateFrom req) (q_dateTo req)\<rparr>
             | QueryRows allPayments \<Rightarrow>
                 status (serve req db) = 200 \<and> contentType (serve req db) = Some ''text/html'' \<and>
                 (\<exists>doc. body (serve req db) = Html doc \<and>
                    (\<not> truthy (q_paymentMethod req) \<longrightarrow>
                       rows doc =
                         reportFilteredPayments (the (q_dateFrom req)) (the (q_dateTo req)) []
                           allPayments))))"
  using assms
  by (cases db) (auto simp: serve_def Let_def generateHTMLReport_def truthy_def split: option.splits)

theorem report_endpoint_answers_witness:
  "status (serve \<lparr>req_method = ''GET'', q_dateFrom = None, q_dateTo = Some ''2025-10-19'',
             q_paymentMethod = None\<rparr> (QueryRows scenarioRecords)) = 400 \<and>
   serve \<lparr>req_method = ''GET'', q_dateFrom = Some ''2025-10-19'', q_dateTo = Some ''2025-10-19'',
             q_paymentMethod = None\<rparr> (QueryError ''timeout'') =
     \<lparr>status = 500, contentType = Some ''application/json'',
      body = JsonFailure ''timeout'' (Some ''2025-10-19'') (Some ''2025-10-19'')\<rparr> \<and>
   status (serve \<lparr>req_method = ''GET'', q_dateFrom = Some ''2025-10-19'',
             q_dateTo = Some ''2025-10-19'', q_paymentMethod = Some []\<rparr>
             (QueryRows scenarioRecords)) = 200"
  using
    report_endpoint_answers [of "\<lparr>req_method = ''GET'', q_dateFrom = None,
      q_dateTo = Some ''2025-10-19'', q_paymentMethod = None\<rparr>" "QueryRows scenarioRecords"]
    report_endpoint_answers [of "\<lparr>req_method = ''GET'', q_dateFrom = Some ''2025-10-19'',
      q_dateTo = Some ''2025-10-19'', q_paymentMethod = None\<rparr>" "QueryError ''timeout''"]
    report_endpoint_answers [of "\<lparr>req_method = ''GET'', q_dateFrom = Some ''2025-10-19'',
      q_dateTo = Some ''2025-10-19'', q_paymentMethod = Some []\<rparr>" "QueryRows scenarioRecords"]
  by (simp add: truthy_def)

text \<open>
  C7 as stated fails: a \<open>GET\<close> whose \<open>dateFrom\<close> is present but empty is answered with
  status 400, and an \<open>OPTIONS\<close> request without parameters is answered with status 200
  and no body.
\<close>

theorem report_endpoint_counterexample:
  "q_dateFrom \<lparr>req_method = ''GET'', q_dateFrom = Some [], q_dateTo = Some ''2025-10-19'',
               q_paymentMethod = None\<rparr> \<noteq> None \<and>
   status (serve \<lparr>req_method = ''GET'', q_dateFrom = Some [], q_dateTo = Some ''2025-10-19'',
             q_paymentMethod = None\<rparr> (QueryRows [])) = 400 \<and>
   serve \<lparr>req_method = ''OPTIONS'', q_dateFrom = None, q_dateTo = None, q_paymentMethod = None\<rparr>
     (QueryRows []) = \<lparr>status = 200, contentType = None, body = NoBody\<rparr>"
  by code_simp

section \<open>C8: a range whose start lies after its end\<close>

text \<open>
  C8 says that criteria with \<open>dateFrom > dateTo\<close> select no record.  The filter rebuilds
  each bound as \<open>new Date(year, month, date)\<close> from the local fields of the parsed key,
  and that constructor reads a year from 0 to 99 as \<open>1900 + year\<close>.  With
  \<open>dateFrom = 0100-01-01\<close> and \<open>dateTo = 0099-12-31\<close> the start of the range is
  1 January 100 and its end 31 December 1999, so in a browser on UTC and in a browser in
  New York the record stamped 1990-06-15T12:00Z is visible: the count is 1 and the total
  10.
\<close>

theorem reversed_range_before_year_100_shows_a_record:
  "\<not> js_str_le ''0100-01-01'' ''0099-12-31'' \<and>
   filteredPayments (FixedOffset 0)
     \<lparr>searchTerm = [], dateFrom = ''0100-01-01'', dateTo = ''0099-12-31'', paymentMethod = []\<rparr>
     [oldRecord] = [oldRecord] \<and>
   filteredPayments USEastern
     \<lparr>searchTerm = [], dateFrom = ''0100-01-01'', dateTo = ''0099-12-31'', paymentMethod = []\<rparr>
     [oldRecord] = [oldRecord] \<and>
   length
     (filteredPayments USEastern
        \<lparr>searchTerm = [], dateFrom = ''0100-01-01'', dateTo = ''0099-12-31'', paymentMethod = []\<rparr>
        [oldRecord]) = 1 \<and>
   total
     (SummaryCards_summary
        (filteredPayments USEastern
           \<lparr>searchTerm = [], dateFrom = ''0100-01-01'', dateTo = ''0099-12-31'', paymentMethod = []\<rparr>
           [oldRecord])) = Finite 10"
  by code_simp

text \<open>
  From the year 100 on the claim holds.  When \<open>dateFrom\<close> and \<open>dateTo\<close> are date keys of
  calendar days in the years 100 to 9999 and \<open>dateFrom > dateTo\<close> as strings, which is the
  order of the days, the filter returns the empty list for every record set, every search
  text, every method and every zone of the browser: no record is visible, the count is 0
  and every sum of the summary is 0.  The filter is a total function with no error value,
  so no validation error is raised.
\<close>

lemma reversed_range_is_empty_from_year_100:
  assumes "dateFrom c = dayKey n1" and "dateTo c = dayKey n2"
    and "keyedDay n1" and "keyedDay n2"
    and "\<not> js_str_le (dateFrom c) (dateTo c)"
  shows "filteredPayments z c R = [] \<and> length (filteredPayments z c R) = 0 \<and>
         SummaryCards_summary (filteredPayments z c R) = summaryZero"
proof -
  have "js_str_le (dayKey n1) (dayKey n2) \<longleftrightarrow> n1 \<le> n2"
    by (rule js_str_le_dayKey) (use assms(3,4) in \<open>simp_all add: keyedDay_def\<close>)
  with assms(1,2,5) have "n2 < n1" by simp
  then have lt: "UTCofLocal z (MakeDate n2 0) < UTCofLocal z (MakeDate n1 0)"
    by (rule UTCofLocal_days_mono)
  have "\<not> filterCallback z c p" for p
    using lt
    by (simp add: filterCallback_def Let_def assms(1,2) dayKey_not_empty
        bounds_of_dayKeys [OF assms(3)] bounds_of_dayKeys [OF assms(4)]
        matchesDateFrom_def matchesDateTo_def)
  then have "filteredPayments z c R = []"
    by (simp add: filteredPayments_def)
  then show ?thesis by (simp add: SummaryCards_summary_def)
qed

section \<open>C9: the name of the downloaded file\<close>

text \<open>
  C9, as amended.  When the fetch answers with an \<open>ok\<close> response, the file is downloaded
  under the name \<open>payment-report-<date>.html\<close> if the resolved start and end of the range
  are equal, and under \<open>payment-report-<from>-to-<to>.html\<close> if they differ.
\<close>

theorem report_download_filename:
  assumes "fetched = FetchResponse True html"
  shows "handleGenerateCurrentReport c now1 now2 fetched =
           Download
             (if resolvedFrom c now1 = resolvedTo c now2
              then ''payment-report-'' @ resolvedFrom c now1 @ ''.html''
              else ''payment-report-'' @ resolvedFrom c now1 @ ''-to-'' @ resolvedTo c now2 @ ''.html'')
             html"
  using assms by (simp add: handleGenerateCurrentReport_def reportFilename_def Let_def)

theorem report_download_filename_witness:
  "handleGenerateCurrentReport
     \<lparr>searchTerm = [], dateFrom = ''2025-10-18'', dateTo = ''2025-10-20'', paymentMethod = []\<rparr>
     0 0 (FetchResponse True ''<html>'') =
   Download ''payment-report-2025-10-18-to-2025-10-20.html'' ''<html>''"
  using report_download_filename [of "FetchResponse True ''<html>''" "''<html>''"
      "\<lparr>searchTerm = [], dateFrom = ''2025-10-18'', dateTo = ''2025-10-20'', paymentMethod = []\<rparr>"
      0 0]
  by (simp add: resolvedFrom_def resolvedTo_def)

text \<open>
  C9 as stated fails: for the single day 2025-10-19 the file is named
  \<open>payment-report-2025-10-19.html\<close>, not \<open>report-2025-10-19\<close>.
\<close>

theorem report_download_filename_counterexample:
  "handleGenerateCurrentReport (singleDay ''2025-10-19'') 0 0 (FetchResponse True ''<html>'') =
     Download ''payment-report-2025-10-19.html'' ''<html>'' \<and>
   handleGenerateCurrentReport (singleDay ''2025-10-19'') 0 0 (FetchResponse True ''<html>'') \<noteq>
     Download (''report-'' @ ''2025-10-19'') ''<html>''"
  by code_simp

section \<open>C10: what the arrow buttons do to the range\<close>

text \<open>
  C10 says that the previous-day button sets both ends of the range to the day before
  \<open>dateFrom\<close>, and the next-day button to the day after.  In a browser thirteen hours
  ahead of UTC, with the range 2025-01-15 to 2025-01-20, the previous-day button sets both
  ends to 2025-01-13 and the next-day button sets both ends to 2025-01-15.
\<close>

theorem arrow_buttons_far_east:
  "goToPreviousDay (FixedOffset 780)
     \<lparr>searchTerm = [], dateFrom = ''2025-01-15'', dateTo = ''2025-01-20'', paymentMethod = []\<rparr> =
     \<lparr>searchTerm = [], dateFrom = ''2025-01-13'', dateTo = ''2025-01-13'', paymentMethod = []\<rparr> \<and>
   goToNextDay (FixedOffset 780)
     \<lparr>searchTerm = [], dateFrom = ''2025-01-15'', dateTo = ''2025-01-20'', paymentMethod = []\<rparr> =
     \<lparr>searchTerm = [], dateFrom = ''2025-01-15'', dateTo = ''2025-01-15'', paymentMethod = []\<rparr>"
  by code_simp

end
